theory Spec2Isabelle
  imports Complex_Main "HOL-Library.Multiset"
begin

section \<open>Monte Carlo tree search over a chess board (game_playing/import chess.py)\<close>

text \<open>
  The module binds to the python-chess library. The parts of that library the search
  uses are taken as they are documented there: piece types, colours (\<open>chess.WHITE\<close> is
  \<open>True\<close>), squares numbered 0 to 63 from a1, and a board that answers which piece stands
  on a square. A Python number is read as the real number it stands for. The float
  additions of \<open>evaluate_board\<close> are rounded to a double as the machine rounds them;
  the statistics of the search tree (\<open>wins\<close>, the UCB1 priority) are read as reals, with
  \<open>float('inf')\<close> as a value above every real.
\<close>

subsection \<open>Pieces, squares and the value table\<close>

datatype piece_type = PAWN | KNIGHT | BISHOP | ROOK | QUEEN | KING

type_synonym color = bool

definition WHITE :: color where "WHITE = True"
definition BLACK :: color where "BLACK = False"

type_synonym square = nat

definition D4 :: square where "D4 = 27"
definition E4 :: square where "E4 = 28"
definition D5 :: square where "D5 = 35"
definition E5 :: square where "E5 = 36"

text \<open>A piece is its type and its colour; a position says what stands on each square.\<close>

type_synonym piece = "piece_type \<times> color"
type_synonym position = "square \<Rightarrow> piece option"

text \<open>The dictionary \<open>PIECE_VALUES\<close>, in insertion order.\<close>

definition PIECE_VALUES :: "(piece_type \<times> int) list" where
  "PIECE_VALUES =
     [(PAWN, 1), (KNIGHT, 3), (BISHOP, 3), (ROOK, 5), (QUEEN, 9), (KING, 0)]"

text \<open>\<open>board.pieces(piece_type, color)\<close>: the squares holding such a piece.\<close>

definition pieces :: "position \<Rightarrow> piece_type \<Rightarrow> color \<Rightarrow> square list" where
  "pieces pos pt c = filter (\<lambda>sq. pos sq = Some (pt, c)) [0..<64]"

text \<open>\<open>board.piece_at(square)\<close>.\<close>

definition piece_at :: "position \<Rightarrow> square \<Rightarrow> piece option" where
  "piece_at pos sq = pos sq"

subsection \<open>Double precision\<close>

text \<open>
  The sum of two doubles is the double nearest to the exact sum, a tie going to the even
  significand (IEEE 754, round to nearest even). A double has a significand of 53 bits:
  the exact value is scaled by a power of two into the range from \<open>2^52\<close> up to \<open>2^53\<close>,
  rounded to an integer and scaled back. Overflow and subnormal numbers are left out;
  the scaling gives up after 2200 steps, beyond the exponents a double has.
\<close>

definition round_half_even :: "real \<Rightarrow> int" where
  "round_half_even r =
     (let f = \<lfloor>r\<rfloor>; d = r - of_int f
      in if d < 1 / 2 then f else if 1 / 2 < d then f + 1
         else if even f then f else f + 1)"

definition pow2 :: "int \<Rightarrow> real" where
  "pow2 e = (if 0 \<le> e then 2 ^ nat e else 1 / 2 ^ nat (- e))"

fun normalise :: "nat \<Rightarrow> real \<Rightarrow> int \<Rightarrow> real \<times> int" where
  "normalise 0 m e = (m, e)"
| "normalise (Suc n) m e =
     (if m < 2 ^ 52 then normalise n (m * 2) (e - 1)
      else if 2 ^ 53 \<le> m then normalise n (m / 2) (e + 1)
      else (m, e))"

definition round_double :: "real \<Rightarrow> real" where
  "round_double x =
     (if x = 0 then 0
      else case normalise 2200 \<bar>x\<bar> 0 of
             (m, e) \<Rightarrow> sgn x * of_int (round_half_even m) * pow2 e)"

text \<open>The literal \<open>0.1\<close> is the double nearest to one tenth.\<close>

definition float_tenth :: real where
  "float_tenth = round_double (1 / 10)"

definition float_add :: "real \<Rightarrow> real \<Rightarrow> real" where
  "float_add a b = round_double (a + b)"

definition float_sub :: "real \<Rightarrow> real \<Rightarrow> real" where
  "float_sub a b = round_double (a - b)"

subsection \<open>evaluate_board\<close>

definition center_squares :: "square list" where
  "center_squares = [D4, D5, E4, E5]"

text \<open>
  One pass of the first loop: the key and \<open>PIECE_VALUES[key]\<close>. The score is an int here,
  and int arithmetic is exact.
\<close>

definition material_step :: "position \<Rightarrow> piece_type \<times> int \<Rightarrow> real \<Rightarrow> real" where
  "material_step pos kv score =
     score + real (length (pieces pos (fst kv) WHITE)) * real_of_int (snd kv)
           - real (length (pieces pos (fst kv) BLACK)) * real_of_int (snd kv)"

text \<open>
  One pass of the second loop: \<open>score += 0.1\<close> and \<open>score -= 0.1\<close> are float operations
  (an int score is converted first, without loss at this size).
\<close>

definition center_step :: "position \<Rightarrow> square \<Rightarrow> real \<Rightarrow> real" where
  "center_step pos sq score =
     (case piece_at pos sq of
        None \<Rightarrow> score
      | Some p \<Rightarrow> if snd p = WHITE then float_add score float_tenth
                  else if snd p = BLACK then float_sub score float_tenth
                  else score)"

definition evaluate_board :: "position \<Rightarrow> real" where
  "evaluate_board pos =
     fold (center_step pos) center_squares (fold (material_step pos) PIECE_VALUES 0)"

subsection \<open>Errors\<close>

datatype error = IndexError | ValueError | AttributeError | ZeroDivisionError

subsection \<open>Nodes\<close>

text \<open>
  Nodes are objects that refer to each other (a child to its parent, a parent to its
  children) and are updated in place, so they live in a store: a list of nodes, a
  reference being an index. \<open>Node(move, parent)\<close> allocates at the end of the list.
\<close>

type_synonym ref = nat

record 'm node =
  move :: "'m option"
  parent :: "ref option"
  children :: "ref list"
  wins :: real
  visits :: nat

type_synonym 'm nodes = "'m node list"

definition Node :: "'m option \<Rightarrow> ref option \<Rightarrow> 'm node" where
  "Node m p = \<lparr>move = m, parent = p, children = [], wins = 0, visits = 0\<rparr>"

text \<open>A float, with \<open>float('inf')\<close>.\<close>

datatype pyfloat = Fin real | PInf

fun float_gt :: "pyfloat \<Rightarrow> pyfloat \<Rightarrow> bool" where
  "float_gt (Fin a) (Fin b) = (b < a)"
| "float_gt PInf (Fin b) = True"
| "float_gt _ PInf = False"

text \<open>\<open>a / b\<close> on numbers raises on a zero divisor.\<close>

definition py_div :: "real \<Rightarrow> real \<Rightarrow> error + real" where
  "py_div a b = (if b = 0 then Inl ZeroDivisionError else Inr (a / b))"

text \<open>\<open>math.log\<close> of an integer and \<open>math.sqrt\<close> raise outside their domain.\<close>

definition math_log :: "nat \<Rightarrow> error + real" where
  "math_log n = (if n = 0 then Inl ValueError else Inr (ln (real n)))"

definition math_sqrt :: "real \<Rightarrow> error + real" where
  "math_sqrt x = (if x < 0 then Inl ValueError else Inr (sqrt x))"

text \<open>\<open>Node.ucb1\<close>; reading \<open>self.parent.visits\<close> of a node without parent raises.\<close>

definition ucb1 :: "'m nodes \<Rightarrow> ref \<Rightarrow> real \<Rightarrow> error + pyfloat" where
  "ucb1 ns self exploration_weight =
     (if visits (ns ! self) = 0 then Inr PInf
      else case py_div (wins (ns ! self)) (real (visits (ns ! self))) of
        Inl e \<Rightarrow> Inl e
      | Inr avg \<Rightarrow>
         (case parent (ns ! self) of
            None \<Rightarrow> Inl AttributeError
          | Some p \<Rightarrow>
             (case math_log (visits (ns ! p)) of
                Inl e \<Rightarrow> Inl e
              | Inr l \<Rightarrow>
                 (case py_div l (real (visits (ns ! self))) of
                    Inl e \<Rightarrow> Inl e
                  | Inr q \<Rightarrow>
                     (case math_sqrt q of
                        Inl e \<Rightarrow> Inl e
                      | Inr r \<Rightarrow> Inr (Fin (avg + exploration_weight * r)))))))"

text \<open>
  \<open>max(iterable, key=...)\<close>: the first element is the running maximum and a later one
  replaces it only when its key is strictly greater; the keys are computed in order, so
  the first one that raises ends the call.
\<close>

fun max_from :: "'m nodes \<Rightarrow> ref \<Rightarrow> pyfloat \<Rightarrow> ref list \<Rightarrow> error + ref" where
  "max_from ns best kbest [] = Inr best"
| "max_from ns best kbest (c # cs) =
     (case ucb1 ns c (14 / 10) of
        Inl e \<Rightarrow> Inl e
      | Inr k \<Rightarrow> if float_gt k kbest then max_from ns c k cs
                 else max_from ns best kbest cs)"

definition best_child :: "'m nodes \<Rightarrow> ref \<Rightarrow> error + ref" where
  "best_child ns self =
     (case children (ns ! self) of
        [] \<Rightarrow> Inl ValueError
      | c # cs \<Rightarrow>
         (case ucb1 ns c (14 / 10) of
            Inl e \<Rightarrow> Inl e
          | Inr k \<Rightarrow> max_from ns c k cs))"

subsection \<open>The board and the random source\<close>

text \<open>
  What the search asks of a \<open>chess.Board\<close>: its legal moves, the board after a move, whether
  the game is over, the result string, the side to move, and the position for
  \<open>evaluate_board\<close>. The rules themselves belong to the library, so they are a parameter.
\<close>

record ('b, 'm) game =
  legal_moves :: "'b \<Rightarrow> 'm list"
  push :: "'b \<Rightarrow> 'm \<Rightarrow> 'b"
  is_game_over :: "'b \<Rightarrow> bool"
  result :: "'b \<Rightarrow> string"
  turn :: "'b \<Rightarrow> color"
  placement :: "'b \<Rightarrow> position"

text \<open>
  Boards are objects too: \<open>board.copy()\<close> makes a new one and \<open>push\<close> changes the one it
  is called on. The board store is a list of boards, a reference being an index.
\<close>

type_synonym 'b boards = "'b list"

definition board_copy :: "'b boards \<Rightarrow> ref \<Rightarrow> 'b boards \<times> ref" where
  "board_copy bs r = (bs @ [bs ! r], length bs)"

definition board_push :: "('b, 'm) game \<Rightarrow> 'b boards \<Rightarrow> ref \<Rightarrow> 'm \<Rightarrow> 'b boards" where
  "board_push g bs r m = bs[r := push g (bs ! r) m]"

text \<open>
  The generator behind \<open>random.choice\<close> is an arbitrary sequence of numbers \<open>rnd\<close> and
  the count of draws made so far; the \<open>k\<close>-th choice from \<open>xs\<close> is the element at
  \<open>rnd k mod len(xs)\<close>, and choosing from an empty sequence raises.
\<close>

definition random_choice :: "(nat \<Rightarrow> nat) \<Rightarrow> nat \<Rightarrow> 'a list \<Rightarrow> error + ('a \<times> nat)" where
  "random_choice rnd k xs =
     (if xs = [] then Inl IndexError else Inr (xs ! (rnd k mod length xs), Suc k))"

subsection \<open>mcts\<close>

text \<open>The state of a search: the nodes, the boards and the number of random draws.\<close>

record ('b, 'm) world =
  nodes :: "'m nodes"
  boards :: "'b boards"
  draws :: nat

text \<open>
  Selection: \<open>while node.children: node = node.best_child(); temp_board.push(node.move)\<close>.
  Pushing the move of a node that has none raises.
\<close>

partial_function (option) select ::
  "('b, 'm) game \<Rightarrow> 'm nodes \<Rightarrow> ref \<Rightarrow> 'b boards \<Rightarrow> ref \<Rightarrow> (error + (ref \<times> 'b boards)) option"
where
  "select g ns temp_board bs node =
     (if children (ns ! node) = [] then Some (Inr (node, bs))
      else case best_child ns node of
        Inl e \<Rightarrow> Some (Inl e)
      | Inr c \<Rightarrow>
         (case move (ns ! c) of
            None \<Rightarrow> Some (Inl AttributeError)
          | Some m \<Rightarrow> select g ns temp_board (board_push g bs temp_board m) c))"

declare select.simps [code]

text \<open>Expansion: \<open>for move in temp_board.legal_moves: node.children.append(Node(move, node))\<close>.\<close>

fun add_children :: "'m nodes \<Rightarrow> ref \<Rightarrow> 'm list \<Rightarrow> 'm nodes" where
  "add_children ns node [] = ns"
| "add_children ns node (m # ms) =
     add_children
       ((ns @ [Node (Some m) (Some node)])
          [node := (ns ! node)\<lparr>children := children (ns ! node) @ [length ns]\<rparr>])
       node ms"

text \<open>The simulation loop, with its depth counter.\<close>

function rollout ::
  "('b, 'm) game \<Rightarrow> (nat \<Rightarrow> nat) \<Rightarrow> ref \<Rightarrow> int \<Rightarrow> 'b boards \<Rightarrow> nat \<Rightarrow> int
     \<Rightarrow> error + ('b boards \<times> nat)"
where
  "rollout g rnd temp_board simulation_depth bs k depth =
     (if \<not> is_game_over g (bs ! temp_board) \<and> depth < simulation_depth then
        (case random_choice rnd k (legal_moves g (bs ! temp_board)) of
           Inl e \<Rightarrow> Inl e
         | Inr (m, k') \<Rightarrow>
             rollout g rnd temp_board simulation_depth (board_push g bs temp_board m) k'
               (depth + 1))
      else Inr (bs, k))"
  by pat_completeness auto
termination
  by (relation "measure (\<lambda>(g, rnd, temp_board, simulation_depth, bs, k, depth).
        nat (simulation_depth - depth))") auto

text \<open>The reward of the board the simulation stopped on.\<close>

definition score_of :: "('b, 'm) game \<Rightarrow> 'b \<Rightarrow> real" where
  "score_of g b =
     (if is_game_over g b then
        (if result g b = ''1-0'' then 1
         else if result g b = ''0-1'' then - 1
         else 0)
      else evaluate_board (placement g b))"

text \<open>
  Backpropagation: \<open>while node is not None\<close>, with the test of \<open>temp_board.turn\<close> made
  at every node, on the board as the simulation left it.
\<close>

partial_function (option) backpropagate ::
  "('b, 'm) game \<Rightarrow> 'b \<Rightarrow> real \<Rightarrow> 'm nodes \<Rightarrow> ref option \<Rightarrow> 'm nodes option"
where
  "backpropagate g temp_board score ns node =
     (case node of
        None \<Rightarrow> Some ns
      | Some n \<Rightarrow>
          backpropagate g temp_board score
            (ns[n := (ns ! n)\<lparr>visits := visits (ns ! n) + 1,
                               wins := wins (ns ! n)
                                 + (if turn g temp_board = WHITE then score else - score)\<rparr>])
            (parent (ns ! n)))"

declare backpropagate.simps [code]

text \<open>The expansion step with the choice of the child to simulate from.\<close>

definition expand ::
  "('b, 'm) game \<Rightarrow> (nat \<Rightarrow> nat) \<Rightarrow> ref \<Rightarrow> 'm nodes \<Rightarrow> 'b boards \<Rightarrow> nat \<Rightarrow> ref
     \<Rightarrow> error + ('m nodes \<times> 'b boards \<times> nat \<times> ref)"
where
  "expand g rnd temp_board ns bs k node =
     (if \<not> is_game_over g (bs ! temp_board) then
        (let ns' = add_children ns node (legal_moves g (bs ! temp_board)) in
         case random_choice rnd k (children (ns' ! node)) of
           Inl e \<Rightarrow> Inl e
         | Inr (c, k') \<Rightarrow>
            (case move (ns' ! c) of
               None \<Rightarrow> Inl AttributeError
             | Some m \<Rightarrow> Inr (ns', board_push g bs temp_board m, k', c)))
      else Inr (ns, bs, k, node))"

text \<open>One pass of the loop \<open>for _ in range(iterations)\<close>, from the root at \<open>rootn\<close>.\<close>

definition iteration ::
  "('b, 'm) game \<Rightarrow> (nat \<Rightarrow> nat) \<Rightarrow> ref \<Rightarrow> int \<Rightarrow> ref \<Rightarrow> ('b, 'm) world
     \<Rightarrow> (error + ('b, 'm) world) option"
where
  "iteration g rnd board simulation_depth rootn w =
     (case board_copy (boards w) board of (bs0, temp_board) \<Rightarrow>
      (case select g (nodes w) temp_board bs0 rootn of
        None \<Rightarrow> None
      | Some (Inl e) \<Rightarrow> Some (Inl e)
      | Some (Inr (leaf, bs1)) \<Rightarrow>
         (case expand g rnd temp_board (nodes w) bs1 (draws w) leaf of
            Inl e \<Rightarrow> Some (Inl e)
          | Inr (ns2, bs2, k2, node) \<Rightarrow>
             (case rollout g rnd temp_board simulation_depth bs2 k2 0 of
                Inl e \<Rightarrow> Some (Inl e)
              | Inr (bs3, k3) \<Rightarrow>
                 (case backpropagate g (bs3 ! temp_board) (score_of g (bs3 ! temp_board))
                         ns2 (Some node) of
                    None \<Rightarrow> None
                  | Some ns4 \<Rightarrow> Some (Inr \<lparr>nodes = ns4, boards = bs3, draws = k3\<rparr>))))))"

text \<open>The loop: \<open>n\<close> passes, stopping at the first one that raises.\<close>

fun iterations_loop ::
  "('b, 'm) game \<Rightarrow> (nat \<Rightarrow> nat) \<Rightarrow> ref \<Rightarrow> int \<Rightarrow> ref \<Rightarrow> nat \<Rightarrow> ('b, 'm) world
     \<Rightarrow> (error + ('b, 'm) world) option"
where
  "iterations_loop g rnd board simulation_depth rootn 0 w = Some (Inr w)"
| "iterations_loop g rnd board simulation_depth rootn (Suc n) w =
     (case iteration g rnd board simulation_depth rootn w of
        None \<Rightarrow> None
      | Some (Inl e) \<Rightarrow> Some (Inl e)
      | Some (Inr w') \<Rightarrow> iterations_loop g rnd board simulation_depth rootn n w')"

text \<open>
  \<open>mcts(board, iterations, simulation_depth)\<close>: the root is a new node, \<open>range(iterations)\<close>
  is empty for a negative count, and the root is returned with the state reached.
\<close>

definition mcts ::
  "('b, 'm) game \<Rightarrow> (nat \<Rightarrow> nat) \<Rightarrow> 'b boards \<Rightarrow> nat \<Rightarrow> ref \<Rightarrow> int \<Rightarrow> int
     \<Rightarrow> (error + (ref \<times> ('b, 'm) world)) option"
where
  "mcts g rnd bs k board iterations simulation_depth =
     (case iterations_loop g rnd board simulation_depth 0 (nat iterations)
             \<lparr>nodes = [Node None None], boards = bs, draws = k\<rparr> of
        None \<Rightarrow> None
      | Some (Inl e) \<Rightarrow> Some (Inl e)
      | Some (Inr w) \<Rightarrow> Some (Inr (0, w)))"

text \<open>The call with the default arguments \<open>iterations=1000, simulation_depth=20\<close>.\<close>

definition mcts_default ::
  "('b, 'm) game \<Rightarrow> (nat \<Rightarrow> nat) \<Rightarrow> 'b boards \<Rightarrow> nat \<Rightarrow> ref
     \<Rightarrow> (error + (ref \<times> ('b, 'm) world)) option"
where
  "mcts_default g rnd bs k board = mcts g rnd bs k board 1000 20"

subsection \<open>get_top_moves\<close>

text \<open>
  \<open>sorted(xs, key=..., reverse=True)\<close> is stable: elements with equal keys keep their
  order. Inserting the elements from the last to the first, each before the first element
  whose key is not greater, does the same.
\<close>

fun insert_desc :: "('a \<Rightarrow> nat) \<Rightarrow> 'a \<Rightarrow> 'a list \<Rightarrow> 'a list" where
  "insert_desc key x [] = [x]"
| "insert_desc key x (y # ys) =
     (if key y \<le> key x then x # y # ys else y # insert_desc key x ys)"

definition sorted_desc :: "('a \<Rightarrow> nat) \<Rightarrow> 'a list \<Rightarrow> 'a list" where
  "sorted_desc key xs = foldr (insert_desc key) xs []"

text \<open>The slice \<open>xs[:n]\<close>; a negative bound counts from the end.\<close>

definition slice_to :: "'a list \<Rightarrow> int \<Rightarrow> 'a list" where
  "slice_to xs n =
     (if 0 \<le> n then take (nat n) xs else take (length xs - nat (- n)) xs)"

definition get_top_moves :: "'m nodes \<Rightarrow> ref \<Rightarrow> int \<Rightarrow> ref list" where
  "get_top_moves ns node top_n =
     (let sorted_children = sorted_desc (\<lambda>child. visits (ns ! child)) (children (ns ! node))
      in slice_to sorted_children top_n)"

subsection \<open>The evaluator as the specification words it\<close>

text \<open>The value table of the specification.\<close>

definition spec_value :: "piece_type \<Rightarrow> int" where
  "spec_value pt =
     (case pt of PAWN \<Rightarrow> 1 | KNIGHT \<Rightarrow> 3 | BISHOP \<Rightarrow> 3 | ROOK \<Rightarrow> 5 | QUEEN \<Rightarrow> 9 | KING \<Rightarrow> 0)"

text \<open>The sum of the values of the pieces of one side, square by square.\<close>

definition side_material :: "position \<Rightarrow> color \<Rightarrow> int" where
  "side_material pos c =
     (\<Sum>sq\<leftarrow>[0..<64]. case pos sq of
                          None \<Rightarrow> 0
                        | Some p \<Rightarrow> if snd p = c then spec_value (fst p) else 0)"

text \<open>The number of centre squares (d4, d5, e4, e5) one side occupies.\<close>

definition center_count :: "position \<Rightarrow> color \<Rightarrow> nat" where
  "center_count pos c =
     length (filter (\<lambda>sq. case pos sq of None \<Rightarrow> False | Some p \<Rightarrow> snd p = c)
               [D4, D5, E4, E5])"

text \<open>A board with a white rook on \<open>r\<close>, a black pawn on \<open>p\<close> and nothing else.\<close>

definition rook_and_pawn :: "square \<Rightarrow> square \<Rightarrow> position" where
  "rook_and_pawn r p = (Map.empty(r \<mapsto> (ROOK, WHITE), p \<mapsto> (PAWN, BLACK)))"

text \<open>A board with white pawns on d4, d5, e4 and e5 and nothing else.\<close>

definition center_pawns :: position where
  "center_pawns = (Map.empty(D4 \<mapsto> (PAWN, WHITE), D5 \<mapsto> (PAWN, WHITE),
                             E4 \<mapsto> (PAWN, WHITE), E5 \<mapsto> (PAWN, WHITE)))"

text \<open>The exact amount a centre square stands for: a tenth for White, minus a tenth for Black.\<close>

definition center_exact :: "position \<Rightarrow> square \<Rightarrow> real" where
  "center_exact pos sq =
     (case pos sq of None \<Rightarrow> 0 | Some p \<Rightarrow> if snd p = WHITE then 1 / 10 else - 1 / 10)"

subsection \<open>Example stores\<close>

text \<open>A root with three children of (visits, wins) = (10, 5), (3, 3), (20, 1).\<close>

definition ranking_example :: "nat nodes" where
  "ranking_example =
     [\<lparr>move = None, parent = None, children = [1, 2, 3], wins = 9, visits = 33\<rparr>,
      \<lparr>move = Some 0, parent = Some 0, children = [], wins = 5, visits = 10\<rparr>,
      \<lparr>move = Some 1, parent = Some 0, children = [], wins = 3, visits = 3\<rparr>,
      \<lparr>move = Some 2, parent = Some 0, children = [], wins = 1, visits = 20\<rparr>]"

text \<open>A root with a child of 5 visits and wins 2, and a child never visited.\<close>

definition priority_example :: "nat nodes" where
  "priority_example =
     [\<lparr>move = None, parent = None, children = [1, 2], wins = 2, visits = 5\<rparr>,
      \<lparr>move = Some 0, parent = Some 0, children = [], wins = 2, visits = 5\<rparr>,
      \<lparr>move = Some 1, parent = Some 0, children = [], wins = 0, visits = 0\<rparr>]"

subsection \<open>Notions used to state the properties\<close>

text \<open>
  The rules of the library agree with themselves: a game that is not over has a legal
  move (checkmate and stalemate, the positions without one, end the game).
\<close>

definition rules_consistent :: "('b, 'm) game \<Rightarrow> bool" where
  "rules_consistent g \<longleftrightarrow> (\<forall>b. \<not> is_game_over g b \<longrightarrow> legal_moves g b \<noteq> [])"

text \<open>
  The nodes from \<open>n\<close> up through the parents, in a store where a parent was created
  before its children.
\<close>

function path_to_root :: "'m nodes \<Rightarrow> ref \<Rightarrow> ref list" where
  "path_to_root ns n =
     n # (case parent (ns ! n) of
            None \<Rightarrow> []
          | Some p \<Rightarrow> if p < n then path_to_root ns p else [])"
  by pat_completeness auto
termination
  by (relation "measure snd") auto

declare path_to_root.simps [simp del]

text \<open>
  The store holds a tree rooted at 0: every other node has a parent created earlier,
  the children of a node were created later, name it as their parent and carry a move,
  and no child is listed twice.
\<close>

definition shape_ok :: "'m nodes \<Rightarrow> bool" where
  "shape_ok ns \<longleftrightarrow>
     ns \<noteq> [] \<and> parent (ns ! 0) = None
     \<and> (\<forall>n < length ns. 0 < n \<longrightarrow> (\<exists>p < n. parent (ns ! n) = Some p))
     \<and> (\<forall>n < length ns. \<forall>c \<in> set (children (ns ! n)).
           n < c \<and> c < length ns \<and> parent (ns ! c) = Some n \<and> move (ns ! c) \<noteq> None)
     \<and> (\<forall>n < length ns. distinct (children (ns ! n)))"

text \<open>Between two passes of the loop, a node with children has been visited.\<close>

definition tree_ok :: "'m nodes \<Rightarrow> bool" where
  "tree_ok ns \<longleftrightarrow>
     shape_ok ns \<and> (\<forall>n < length ns. children (ns ! n) \<noteq> [] \<longrightarrow> 0 < visits (ns ! n))"

text \<open>The board after a sequence of moves.\<close>

definition play :: "('b, 'm) game \<Rightarrow> 'b \<Rightarrow> 'm list \<Rightarrow> 'b" where
  "play g b ms = fold (\<lambda>m b. push g b m) ms b"

text \<open>
  A random playout: each move is the choice the generator makes among the legal moves
  of a board on which the game is not over.
\<close>

fun playout :: "('b, 'm) game \<Rightarrow> (nat \<Rightarrow> nat) \<Rightarrow> nat \<Rightarrow> 'b \<Rightarrow> 'm list \<Rightarrow> bool" where
  "playout g rnd k b [] = True"
| "playout g rnd k b (m # ms) =
     (\<not> is_game_over g b \<and> legal_moves g b \<noteq> []
      \<and> m = legal_moves g b ! (rnd k mod length (legal_moves g b))
      \<and> playout g rnd (Suc k) (push g b m) ms)"

text \<open>What backpropagation does to one node, and to the nodes of a path.\<close>

definition bump :: "real \<Rightarrow> 'm node \<Rightarrow> 'm node" where
  "bump d nd = nd\<lparr>visits := visits nd + 1, wins := wins nd + d\<rparr>"

text \<open>Every parent reference points to an earlier node.\<close>

definition parents_before :: "'m nodes \<Rightarrow> bool" where
  "parents_before ns \<longleftrightarrow>
     (\<forall>n < length ns. case parent (ns ! n) of None \<Rightarrow> True | Some p \<Rightarrow> p < n)"

definition bumped :: "'m nodes \<Rightarrow> real \<Rightarrow> ref list \<Rightarrow> 'm nodes" where
  "bumped ns d path =
     map (\<lambda>i. if i \<in> set path then bump d (ns ! i) else ns ! i) [0..<length ns]"

text \<open>The amount added to \<open>wins\<close>, read off \<open>temp_board.turn\<close>.\<close>

definition signed :: "('b, 'm) game \<Rightarrow> 'b \<Rightarrow> real \<Rightarrow> real" where
  "signed g b score = (if turn g b = WHITE then score else - score)"

text \<open>The number of children of the root never visited.\<close>

definition unvisited :: "'m nodes \<Rightarrow> nat" where
  "unvisited ns = length (filter (\<lambda>c. visits (ns ! c) = 0) (children (ns ! 0)))"

subsection \<open>A game for the examples\<close>

text \<open>
  A small game to run the search on: a pile of counters, a move takes one or two, the
  game is over when the pile is empty and the side that took the last counter has won.
\<close>

definition pile_moves :: "nat \<times> color \<Rightarrow> nat list" where
  "pile_moves b = (if fst b = 0 then [] else if fst b = 1 then [1] else [1, 2])"

definition pile_game :: "(nat \<times> color, nat) game" where
  "pile_game =
     \<lparr>legal_moves = pile_moves,
      push = (\<lambda>b m. (fst b - m, \<not> snd b)),
      is_game_over = (\<lambda>b. fst b = 0),
      result = (\<lambda>b. if fst b = 0 then (if snd b then ''0-1'' else ''1-0'') else ''*''),
      turn = snd,
      placement = (\<lambda>b. Map.empty)\<rparr>"

section \<open>Properties\<close>

subsection \<open>evaluate_board\<close>

lemma material_sum:
  "(\<Sum>kv\<leftarrow>PIECE_VALUES. int (length (filter (\<lambda>sq. pos sq = Some (fst kv, c)) xs)) * snd kv)
   = (\<Sum>sq\<leftarrow>xs. case pos sq of
                   None \<Rightarrow> 0
                 | Some p \<Rightarrow> if snd p = c then spec_value (fst p) else 0)"
proof (induction xs)
  case Nil
  show ?case by (simp add: PIECE_VALUES_def)
next
  case (Cons x xs)
  have "(\<Sum>kv\<leftarrow>PIECE_VALUES.
            int (length (filter (\<lambda>sq. pos sq = Some (fst kv, c)) (x # xs))) * snd kv)
      = (\<Sum>kv\<leftarrow>PIECE_VALUES. (if pos x = Some (fst kv, c) then snd kv else 0))
        + (\<Sum>kv\<leftarrow>PIECE_VALUES.
             int (length (filter (\<lambda>sq. pos sq = Some (fst kv, c)) xs)) * snd kv)"
    by (simp add: PIECE_VALUES_def algebra_simps)
  moreover have "(\<Sum>kv\<leftarrow>PIECE_VALUES. (if pos x = Some (fst kv, c) then snd kv else 0))
      = (case pos x of None \<Rightarrow> 0 | Some p \<Rightarrow> if snd p = c then spec_value (fst p) else 0)"
  proof (cases "pos x")
    case None
    then show ?thesis by (simp add: PIECE_VALUES_def)
  next
    case (Some p)
    obtain pt c' where p: "p = (pt, c')" by (cases p)
    show ?thesis using Some p
      by (cases pt) (auto simp: PIECE_VALUES_def spec_value_def)
  qed
  ultimately show ?case using Cons by simp
qed

lemma fold_material:
  "fold (material_step pos) kvs s
   = s + (\<Sum>kv\<leftarrow>kvs. real_of_int (int (length (pieces pos (fst kv) WHITE)) * snd kv))
       - (\<Sum>kv\<leftarrow>kvs. real_of_int (int (length (pieces pos (fst kv) BLACK)) * snd kv))"
  by (induction kvs arbitrary: s) (auto simp: material_step_def)

lemma material_eq:
  "fold (material_step pos) PIECE_VALUES 0
   = real_of_int (side_material pos WHITE) - real_of_int (side_material pos BLACK)"
proof -
  have "(\<Sum>kv\<leftarrow>PIECE_VALUES. real_of_int (int (length (pieces pos (fst kv) c)) * snd kv))
        = real_of_int (side_material pos c)" for c
  proof -
    have "(\<Sum>kv\<leftarrow>PIECE_VALUES. real_of_int (int (length (pieces pos (fst kv) c)) * snd kv))
        = real_of_int (\<Sum>kv\<leftarrow>PIECE_VALUES. int (length (pieces pos (fst kv) c)) * snd kv)"
      by (simp add: PIECE_VALUES_def)
    then show ?thesis
      unfolding pieces_def side_material_def material_sum by simp
  qed
  then show ?thesis by (simp add: fold_material)
qed

lemma count_list_upt: "count_list [a..<b] r = (if a \<le> r \<and> r < b then 1 else 0)"
  by (induction b) auto

lemma side_material_rook_and_pawn:
  assumes "r < 64" "p < 64" "r \<noteq> p"
  shows "side_material (rook_and_pawn r p) WHITE = 5"
    and "side_material (rook_and_pawn r p) BLACK = 1"
proof -
  have w: "(\<Sum>sq\<leftarrow>xs. case rook_and_pawn r p sq of
                        None \<Rightarrow> 0
                      | Some q \<Rightarrow> if snd q = WHITE then spec_value (fst q) else 0)
      = 5 * int (count_list xs r)" for xs
    using assms(3)
    by (induction xs) (auto simp: rook_and_pawn_def spec_value_def WHITE_def BLACK_def)
  have b: "(\<Sum>sq\<leftarrow>xs. case rook_and_pawn r p sq of
                        None \<Rightarrow> 0
                      | Some q \<Rightarrow> if snd q = BLACK then spec_value (fst q) else 0)
      = int (count_list xs p)" for xs
    using assms(3)
    by (induction xs) (auto simp: rook_and_pawn_def spec_value_def WHITE_def BLACK_def)
  have "count_list [0..<64] r = 1" "count_list [0..<64] p = 1"
    using assms(1,2) by (simp_all add: count_list_upt)
  then show "side_material (rook_and_pawn r p) WHITE = 5"
    and "side_material (rook_and_pawn r p) BLACK = 1"
    by (simp_all add: side_material_def w b)
qed

lemma center_count_rook_and_pawn:
  assumes "r \<notin> set center_squares" "p \<notin> set center_squares"
  shows "center_count (rook_and_pawn r p) c = 0"
  using assms by (auto simp: center_count_def center_squares_def rook_and_pawn_def)

subsection \<open>Rounding to a double\<close>

lemma normalise_in_range:
  "2 ^ 52 \<le> m \<Longrightarrow> m < 2 ^ 53 \<Longrightarrow> normalise n m e = (m, e)"
  by (cases n) simp_all

lemma normalise_up:
  "k \<le> n \<Longrightarrow> 2 ^ 52 \<le> m * 2 ^ k \<Longrightarrow> m * 2 ^ k < 2 ^ 53
   \<Longrightarrow> normalise n m e = (m * 2 ^ k, e - int k)"
proof (induction k arbitrary: n m e)
  case 0
  then show ?case by (simp add: normalise_in_range)
next
  case (Suc k)
  then obtain n' where n: "n = Suc n'" "k \<le> n'" by (cases n) auto
  have "m * 2 < 2 ^ 53"
  proof -
    have "m * 2 \<le> m * 2 ^ Suc k"
    proof -
      have "(0::real) < 2 ^ 52" by simp
      then have "0 < m * 2 ^ Suc k" using Suc.prems(2) by (rule less_le_trans)
      then have "0 \<le> m" by (simp add: zero_less_mult_iff)
      moreover have "(2::real) \<le> 2 ^ Suc k" by (simp add: self_le_power)
      ultimately show ?thesis by (simp add: mult_left_mono)
    qed
    with Suc.prems(3) show ?thesis by linarith
  qed
  then have lt: "m < 2 ^ 52" by simp
  have "normalise n m e = normalise n' (m * 2) (e - 1)"
    using n(1) lt by simp
  also have "\<dots> = (m * 2 * 2 ^ k, e - 1 - int k)"
    using Suc.prems(2,3) by (intro Suc.IH n(2)) (simp_all add: mult.assoc)
  finally show ?case by (simp add: mult.assoc)
qed

lemma round_double_scaled:
  assumes "k \<le> 2200" "2 ^ 52 \<le> \<bar>x\<bar> * 2 ^ k" "\<bar>x\<bar> * 2 ^ k < 2 ^ 53"
  shows "round_double x = sgn x * of_int (round_half_even (\<bar>x\<bar> * 2 ^ k)) / 2 ^ k"
proof -
  have "x \<noteq> 0" using assms(2) by auto
  moreover have "normalise 2200 \<bar>x\<bar> 0 = (\<bar>x\<bar> * 2 ^ k, - int k)"
    using normalise_up[OF assms, of 0] by simp
  moreover have "pow2 (- int k) = 1 / 2 ^ k" by (simp add: pow2_def)
  ultimately show ?thesis by (simp add: round_double_def)
qed

lemma float_tenth_value: "float_tenth = 3602879701896397 / 36028797018963968"
  unfolding float_tenth_def
  by (subst round_double_scaled[of 56]) (simp_all add: round_half_even_def Let_def)

lemma round_half_even_error: "\<bar>of_int (round_half_even r) - r\<bar> \<le> 1 / 2"
proof -
  have "of_int \<lfloor>r\<rfloor> \<le> r" "r < of_int \<lfloor>r\<rfloor> + 1" by linarith+
  then show ?thesis
    by (auto simp: round_half_even_def Let_def)
qed

lemma normalise_props:
  "0 < m \<Longrightarrow> m < 2 ^ 53 \<Longrightarrow> normalise n m e = (m', e') \<Longrightarrow>
     e' \<le> e \<and> m' = m * 2 ^ nat (e - e') \<and> (2 ^ 52 \<le> m' \<or> e' = e - int n)"
proof (induction n arbitrary: m e)
  case 0
  then show ?case by simp
next
  case (Suc n)
  show ?case
  proof (cases "m < 2 ^ 52")
    case True
    with Suc.prems(3) have eq: "normalise n (m * 2) (e - 1) = (m', e')" by simp
    have "0 < m * 2" "m * 2 < 2 ^ 53" using Suc.prems(1) True by simp_all
    from Suc.IH[OF this eq]
    have ih: "e' \<le> e - 1" "m' = m * 2 * 2 ^ nat (e - 1 - e')"
      "2 ^ 52 \<le> m' \<or> e' = e - 1 - int n" by blast+
    have "nat (e - e') = Suc (nat (e - 1 - e'))" using ih(1) by simp
    then have "m' = m * 2 ^ nat (e - e')" using ih(2) by simp
    then show ?thesis using ih(1,3) by auto
  next
    case False
    with Suc.prems(2,3) have "m' = m" "e' = e" by simp_all
    then show ?thesis using False by simp
  qed
qed

lemma round_double_error:
  assumes "\<bar>x\<bar> < 2 ^ 11"
  shows "\<bar>round_double x - x\<bar> \<le> 1 / 2 ^ 42"
proof (cases "x = 0")
  case True
  then show ?thesis by (simp add: round_double_def)
next
  case False
  obtain m' e' where n: "normalise 2200 \<bar>x\<bar> 0 = (m', e')" by (cases "normalise 2200 \<bar>x\<bar> 0")
  have pos: "0 < \<bar>x\<bar>" using False by simp
  have lt: "\<bar>x\<bar> < 2 ^ 53" using assms by (rule less_trans) simp
  from normalise_props[OF pos lt n]
  have p0: "e' \<le> 0 \<and> m' = \<bar>x\<bar> * 2 ^ nat (0 - e') \<and> (2 ^ 52 \<le> m' \<or> e' = 0 - int 2200)" .
  have p: "e' \<le> 0" "m' = \<bar>x\<bar> * 2 ^ nat (- e')" "2 ^ 52 \<le> m' \<or> e' = - 2200"
    using p0 by auto
  define K where "K = nat (- e')"
  have pw: "pow2 e' = 1 / 2 ^ K"
    using p(1) by (cases "e' = 0") (simp_all add: pow2_def K_def)
  have m': "m' = \<bar>x\<bar> * 2 ^ K" using p(2) by (simp add: K_def)
  have rd: "round_double x = sgn x * of_int (round_half_even m') / 2 ^ K"
    using False n pw by (simp add: round_double_def)
  have x: "x = sgn x * m' / 2 ^ K"
    by (simp add: m' sgn_real_def)
  have "round_double x - x = sgn x * (of_int (round_half_even m') - m') / 2 ^ K"
    by (subst (2) x, subst rd) (simp add: algebra_simps diff_divide_distrib)
  then have "\<bar>round_double x - x\<bar> = \<bar>of_int (round_half_even m') - m'\<bar> / 2 ^ K"
    using False by (simp add: abs_mult sgn_real_def)
  also have "\<dots> \<le> (1 / 2) / 2 ^ K"
    by (intro divide_right_mono round_half_even_error) simp
  also have "\<dots> \<le> 1 / 2 ^ 42"
  proof -
    have "(2::real) ^ 41 \<le> 2 ^ K"
    proof (cases "2 ^ 52 \<le> m'")
      case True
      then have "2 ^ 52 \<le> \<bar>x\<bar> * 2 ^ K" by (simp add: m')
      also have "\<dots> \<le> 2 ^ 11 * 2 ^ K" using assms by (intro mult_right_mono) simp_all
      finally have "(2::real) ^ 41 * 2 ^ 11 \<le> 2 ^ K * 2 ^ 11" by simp
      then show ?thesis by (simp only: mult_le_cancel_right_pos zero_less_power zero_less_numeral)
    next
      case False
      with p(3) have "K = 2200" by (simp add: K_def)
      then show ?thesis by simp
    qed
    then have "1 / (2::real) ^ K \<le> 1 / 2 ^ 41" by (simp add: field_simps)
    then show ?thesis by simp
  qed
  finally show ?thesis .
qed

lemma float_tenth_error: "\<bar>float_tenth - 1 / 10\<bar> \<le> 1 / 2 ^ 42"
  by (simp add: float_tenth_value)

lemma float_tenth_small: "\<bar>float_tenth\<bar> \<le> 1"
  by (simp add: float_tenth_value)

lemma float_add_error:
  assumes "\<bar>s\<bar> \<le> 2000"
  shows "\<bar>float_add s float_tenth - (s + 1 / 10)\<bar> \<le> 1 / 2 ^ 41"
    and "\<bar>float_sub s float_tenth - (s - 1 / 10)\<bar> \<le> 1 / 2 ^ 41"
proof -
  have a: "\<bar>s + float_tenth\<bar> < 2 ^ 11" "\<bar>s - float_tenth\<bar> < 2 ^ 11"
    using assms float_tenth_small by simp_all
  have "\<bar>float_add s float_tenth - (s + 1 / 10)\<bar>
      \<le> \<bar>round_double (s + float_tenth) - (s + float_tenth)\<bar> + \<bar>float_tenth - 1 / 10\<bar>"
    unfolding float_add_def by linarith
  also have "\<dots> \<le> 1 / 2 ^ 42 + 1 / 2 ^ 42"
    by (intro add_mono round_double_error a(1) float_tenth_error)
  finally show "\<bar>float_add s float_tenth - (s + 1 / 10)\<bar> \<le> 1 / 2 ^ 41" by simp
  have "\<bar>float_sub s float_tenth - (s - 1 / 10)\<bar>
      \<le> \<bar>round_double (s - float_tenth) - (s - float_tenth)\<bar> + \<bar>float_tenth - 1 / 10\<bar>"
    unfolding float_sub_def by linarith
  also have "\<dots> \<le> 1 / 2 ^ 42 + 1 / 2 ^ 42"
    by (intro add_mono round_double_error a(2) float_tenth_error)
  finally show "\<bar>float_sub s float_tenth - (s - 1 / 10)\<bar> \<le> 1 / 2 ^ 41" by simp
qed

lemma center_exact_bound: "\<bar>center_exact pos sq\<bar> \<le> 1 / 10"
  by (simp add: center_exact_def split: option.splits)

lemma center_step_error:
  assumes "\<bar>s\<bar> \<le> 2000"
  shows "\<bar>center_step pos sq s - (s + center_exact pos sq)\<bar> \<le> 1 / 2 ^ 41"
proof (cases "pos sq")
  case None
  then show ?thesis by (simp add: center_step_def piece_at_def center_exact_def)
next
  case (Some p)
  show ?thesis
  proof (cases "snd p = WHITE")
    case True
    then show ?thesis
      using float_add_error(1)[OF assms] Some
      by (simp add: center_step_def piece_at_def center_exact_def)
  next
    case False
    then have b: "snd p = BLACK" by (simp add: WHITE_def BLACK_def)
    have "center_step pos sq s = float_sub s float_tenth"
      using Some False by (simp add: center_step_def piece_at_def WHITE_def BLACK_def)
    moreover have "center_exact pos sq = - 1 / 10"
      using Some False by (simp add: center_exact_def)
    ultimately show ?thesis
      using float_add_error(2)[OF assms] by simp
  qed
qed

lemma fold_center_error:
  "\<bar>s - t\<bar> \<le> real a / 2 ^ 41 \<Longrightarrow> \<bar>t\<bar> \<le> 1000 + real a \<Longrightarrow> a + length sqs \<le> 100 \<Longrightarrow>
   \<bar>fold (center_step pos) sqs s - (t + (\<Sum>sq\<leftarrow>sqs. center_exact pos sq))\<bar>
     \<le> real (a + length sqs) / 2 ^ 41"
proof (induction sqs arbitrary: s t a)
  case Nil
  then show ?case by simp
next
  case (Cons sq sqs)
  let ?s1 = "center_step pos sq s"
  let ?t1 = "t + center_exact pos sq"
  have a100: "real a \<le> 100" using Cons.prems(3) by simp
  have "real a / 2 ^ 41 \<le> 100" 
  proof -
    have "real a / 2 ^ 41 \<le> real a / 1" by (intro divide_left_mono) simp_all
    with a100 show ?thesis by simp
  qed
  with Cons.prems(1) have st: "\<bar>s - t\<bar> \<le> 100" by linarith
  have sb: "\<bar>s\<bar> \<le> 2000" using st Cons.prems(2) a100 by linarith
  have e1: "\<bar>?s1 - (s + center_exact pos sq)\<bar> \<le> 1 / 2 ^ 41"
    by (rule center_step_error[OF sb])
  have "\<bar>?s1 - ?t1\<bar> \<le> \<bar>?s1 - (s + center_exact pos sq)\<bar> + \<bar>s - t\<bar>" by linarith
  also have "\<dots> \<le> 1 / 2 ^ 41 + real a / 2 ^ 41" using e1 Cons.prems(1) by linarith
  also have "\<dots> = real (Suc a) / 2 ^ 41" by (simp add: add_divide_distrib)
  finally have d1: "\<bar>?s1 - ?t1\<bar> \<le> real (Suc a) / 2 ^ 41" .
  have t1: "\<bar>?t1\<bar> \<le> 1000 + real (Suc a)"
    using Cons.prems(2) center_exact_bound[of pos sq] by simp
  have l1: "Suc a + length sqs \<le> 100" using Cons.prems(3) by simp
  from Cons.IH[OF d1 t1 l1] show ?case by (simp add: add.assoc)
qed

lemma sum_center_exact:
  "(\<Sum>sq\<leftarrow>sqs. center_exact pos sq)
   = real (length (filter (\<lambda>sq. case pos sq of None \<Rightarrow> False | Some p \<Rightarrow> snd p = WHITE) sqs)) / 10
     - real (length (filter (\<lambda>sq. case pos sq of None \<Rightarrow> False | Some p \<Rightarrow> snd p = BLACK) sqs)) / 10"
  by (induction sqs)
     (auto simp: center_exact_def WHITE_def BLACK_def add_divide_distrib split: option.splits)

lemma sum_list_bounds:
  "(\<forall>x\<in>set xs. 0 \<le> f x \<and> f x \<le> (9::int))
   \<Longrightarrow> 0 \<le> sum_list (map f xs) \<and> sum_list (map f xs) \<le> 9 * int (length xs)"
  by (induction xs) auto

lemma spec_value_bounds: "0 \<le> spec_value pt \<and> spec_value pt \<le> 9"
  by (cases pt) (simp_all add: spec_value_def)

lemma side_material_bounds: "0 \<le> side_material pos c \<and> side_material pos c \<le> 576"
proof -
  have "\<forall>sq\<in>set [0..<64].
      0 \<le> (case pos sq of None \<Rightarrow> 0 | Some p \<Rightarrow> if snd p = c then spec_value (fst p) else 0)
    \<and> (case pos sq of None \<Rightarrow> 0 | Some p \<Rightarrow> if snd p = c then spec_value (fst p) else 0) \<le> 9"
    using spec_value_bounds by (auto split: option.splits)
  from sum_list_bounds[OF this] show ?thesis
    unfolding side_material_def by simp
qed

lemma evaluate_board_fold:
  "evaluate_board pos
   = fold (center_step pos) [D4, D5, E4, E5]
       (real_of_int (side_material pos WHITE - side_material pos BLACK))"
  by (simp only: evaluate_board_def material_eq center_squares_def of_int_diff)

lemma center_step_explicit:
  "center_step pos
   = (\<lambda>sq s. case pos sq of
                None \<Rightarrow> s
              | Some p \<Rightarrow> if snd p = WHITE then round_double (s + float_tenth)
                          else round_double (s - float_tenth))"
  by (intro ext)
     (auto simp: center_step_def piece_at_def float_add_def float_sub_def WHITE_def BLACK_def
        split: option.splits)

lemma evaluate_board_error:
  "\<bar>evaluate_board pos
     - (real_of_int (side_material pos WHITE - side_material pos BLACK)
        + real (center_count pos WHITE) / 10 - real (center_count pos BLACK) / 10)\<bar>
   \<le> 1 / 10 ^ 10"
proof -
  let ?m = "real_of_int (side_material pos WHITE - side_material pos BLACK)"
  have "\<bar>side_material pos WHITE - side_material pos BLACK\<bar> \<le> 1000"
    using side_material_bounds[of pos WHITE] side_material_bounds[of pos BLACK] by linarith
  then have "real_of_int \<bar>side_material pos WHITE - side_material pos BLACK\<bar> \<le> 1000"
    by (simp only: of_int_le_numeral_iff)
  then have mb: "\<bar>?m\<bar> \<le> 1000 + real 0"
    by (simp only: of_int_abs of_nat_0 add_0_right)
  have "\<bar>fold (center_step pos) [D4, D5, E4, E5] ?m
          - (?m + (\<Sum>sq\<leftarrow>[D4, D5, E4, E5]. center_exact pos sq))\<bar>
        \<le> real (0 + length [D4, D5, E4, E5]) / 2 ^ 41"
    by (rule fold_center_error[OF _ mb]) simp_all
  moreover have "(\<Sum>sq\<leftarrow>[D4, D5, E4, E5]. center_exact pos sq)
       = real (center_count pos WHITE) / 10 - real (center_count pos BLACK) / 10"
    unfolding sum_center_exact center_count_def ..
  moreover have "real (0 + length [D4, D5, E4, E5]) / 2 ^ 41 \<le> 1 / 10 ^ 10" by simp
  ultimately show ?thesis
    unfolding evaluate_board_fold by linarith
qed

lemma evaluate_board_no_center:
  assumes "center_count pos WHITE = 0" "center_count pos BLACK = 0"
  shows "evaluate_board pos = real_of_int (side_material pos WHITE - side_material pos BLACK)"
proof -
  have w: "\<forall>sq\<in>set [D4, D5, E4, E5].
             \<not> (case pos sq of None \<Rightarrow> False | Some p \<Rightarrow> snd p = WHITE)"
    using assms(1) unfolding center_count_def length_0_conv filter_empty_conv .
  have b: "\<forall>sq\<in>set [D4, D5, E4, E5].
             \<not> (case pos sq of None \<Rightarrow> False | Some p \<Rightarrow> snd p = BLACK)"
    using assms(2) unfolding center_count_def length_0_conv filter_empty_conv .
  have "pos sq = None" if "sq \<in> set [D4, D5, E4, E5]" for sq
  proof (cases "pos sq")
    case None
    then show ?thesis .
  next
    case (Some p)
    from w b that have "\<not> (case pos sq of None \<Rightarrow> False | Some p \<Rightarrow> snd p = WHITE)"
      "\<not> (case pos sq of None \<Rightarrow> False | Some p \<Rightarrow> snd p = BLACK)" by blast+
    with Some show ?thesis by (simp add: WHITE_def BLACK_def)
  qed
  then show ?thesis
    unfolding evaluate_board_fold by (simp add: center_step_def piece_at_def)
qed

lemma center_pawns_material:
  "side_material center_pawns WHITE = 4" "side_material center_pawns BLACK = 0"
  by (simp_all add: side_material_def center_pawns_def D4_def D5_def E4_def E5_def
        WHITE_def BLACK_def spec_value_def upt_rec[of _ "numeral n" for n])

lemma center_pawns_count:
  "center_count center_pawns WHITE = 4" "center_count center_pawns BLACK = 0"
  by (simp_all add: center_count_def center_pawns_def D4_def D5_def E4_def E5_def
        WHITE_def BLACK_def)

lemma center_pawns_steps:
  "round_double (4 + float_tenth) = 2308094809027379 / 562949953421312"
  "round_double (2308094809027379 / 562949953421312 + float_tenth)
     = 1182194902184755 / 281474976710656"
  "round_double (1182194902184755 / 281474976710656 + float_tenth)
     = 2420684799711641 / 562949953421312"
  "round_double (2420684799711641 / 562949953421312 + float_tenth)
     = 619244948763443 / 140737488355328"
  unfolding float_tenth_value
  by (subst round_double_scaled[of 50]; simp add: round_half_even_def Let_def)+

lemma evaluate_board_center_pawns:
  "evaluate_board center_pawns = 619244948763443 / 140737488355328"
proof -
  have "evaluate_board center_pawns
      = round_double (round_double (round_double (round_double (4 + float_tenth)
          + float_tenth) + float_tenth) + float_tenth)"
    unfolding evaluate_board_fold center_pawns_material center_step_explicit
    by (simp add: center_pawns_def D4_def D5_def E4_def E5_def WHITE_def BLACK_def)
  then show ?thesis by (simp only: center_pawns_steps)
qed

text \<open>
  The sums are floats: on the board with four white pawns in the centre the value is
  4.399999999999999, the fourth double sum, not 4 plus four tenths.
\<close>

theorem evaluate_board_exact_tenths_counterexample:
  "side_material center_pawns WHITE = 4 \<and> side_material center_pawns BLACK = 0
   \<and> center_count center_pawns WHITE = 4 \<and> center_count center_pawns BLACK = 0
   \<and> evaluate_board center_pawns = 619244948763443 / 140737488355328
   \<and> evaluate_board center_pawns
       \<noteq> real_of_int (side_material center_pawns WHITE)
         - real_of_int (side_material center_pawns BLACK)
         + real (center_count center_pawns WHITE) / 10
         - real (center_count center_pawns BLACK) / 10"
  by (simp add: center_pawns_material center_pawns_count evaluate_board_center_pawns)

text \<open>
  C8, as the code has it. \<open>evaluate_board\<close> is the material of White (pawn 1, knight 3,
  bishop 3, rook 5, queen 9, king 0) minus the material of Black, an exact integer, to
  which the float 0.1 is added for d4, d5, e4, e5 in this order when White stands there
  and subtracted when Black does, each sum rounded to a double. The value is within
  \<open>10^-10\<close> of the material difference plus a tenth per centre square of White minus a
  tenth per centre square of Black; it is the material difference itself when no centre
  square is occupied, and 4 on a board with only a white rook and a black pawn off the
  centre.
\<close>

theorem evaluate_board_material_and_center:
  "evaluate_board pos
     = fold (\<lambda>sq s. case pos sq of
                       None \<Rightarrow> s
                     | Some p \<Rightarrow> if snd p = WHITE then round_double (s + float_tenth)
                                 else round_double (s - float_tenth))
         [D4, D5, E4, E5]
         (real_of_int (side_material pos WHITE - side_material pos BLACK))
   \<and> \<bar>evaluate_board pos
        - (real_of_int (side_material pos WHITE - side_material pos BLACK)
           + real (center_count pos WHITE) / 10 - real (center_count pos BLACK) / 10)\<bar>
       \<le> 1 / 10 ^ 10
   \<and> (center_count pos WHITE = 0 \<and> center_count pos BLACK = 0
        \<longrightarrow> evaluate_board pos
             = real_of_int (side_material pos WHITE - side_material pos BLACK))
   \<and> (r < 64 \<and> p < 64 \<and> r \<noteq> p \<and> r \<notin> set center_squares \<and> p \<notin> set center_squares
        \<longrightarrow> evaluate_board (rook_and_pawn r p) = 4)"
proof -
  have a: "evaluate_board pos
     = fold (\<lambda>sq s. case pos sq of
                       None \<Rightarrow> s
                     | Some p \<Rightarrow> if snd p = WHITE then round_double (s + float_tenth)
                                 else round_double (s - float_tenth))
         [D4, D5, E4, E5]
         (real_of_int (side_material pos WHITE - side_material pos BLACK))"
    unfolding evaluate_board_fold center_step_explicit ..
  have d: "evaluate_board (rook_and_pawn r p) = 4"
    if "r < 64" "p < 64" "r \<noteq> p" "r \<notin> set center_squares" "p \<notin> set center_squares"
    using evaluate_board_no_center[of "rook_and_pawn r p"]
      center_count_rook_and_pawn[OF that(4,5)] side_material_rook_and_pawn[OF that(1,2,3)]
    by simp
  show ?thesis
    using a evaluate_board_error[of pos] evaluate_board_no_center[of pos] d by blast
qed

theorem evaluate_board_material_and_center_witness:
  "(0::nat) < 64 \<and> (48::nat) < 64 \<and> (0::nat) \<noteq> 48
   \<and> 0 \<notin> set center_squares \<and> 48 \<notin> set center_squares
   \<and> center_count (rook_and_pawn 0 48) WHITE = 0
   \<and> center_count (rook_and_pawn 0 48) BLACK = 0
   \<and> evaluate_board (rook_and_pawn 0 48) = 4"
  using evaluate_board_material_and_center [of "rook_and_pawn 0 48" 0 48]
    center_count_rook_and_pawn[of 0 48]
  by (simp add: center_squares_def D4_def D5_def E4_def E5_def)

subsection \<open>get_top_moves\<close>

lemma mset_insert_desc: "mset (insert_desc key x ys) = add_mset x (mset ys)"
  by (induction ys) auto

lemma set_insert_desc: "set (insert_desc key x ys) = insert x (set ys)"
  by (induction ys) auto

lemma sorted_insert_desc:
  "sorted_wrt (\<lambda>a b. key b \<le> key a) ys \<Longrightarrow> sorted_wrt (\<lambda>a b. key b \<le> key a) (insert_desc key x ys)"
  by (induction ys) (auto simp: set_insert_desc)

lemma mset_sorted_desc: "mset (sorted_desc key xs) = mset xs"
  by (induction xs) (auto simp: sorted_desc_def mset_insert_desc)

lemma sorted_sorted_desc: "sorted_wrt (\<lambda>a b. key b \<le> key a) (sorted_desc key xs)"
  by (induction xs) (auto simp: sorted_desc_def sorted_insert_desc)

lemma top_moves_general:
  "0 \<le> n \<Longrightarrow>
     get_top_moves ns node n = take (nat n) (sorted_desc (\<lambda>c. visits (ns ! c)) (children (ns ! node)))"
  by (simp add: get_top_moves_def slice_to_def)

lemma top_moves_example:
  assumes "children (ns ! node) = [a, b, c]"
    and "visits (ns ! a) = 10" "visits (ns ! b) = 3" "visits (ns ! c) = 20"
  shows "get_top_moves ns node 2 = [c, a]"
  using assms by (simp add: get_top_moves_def slice_to_def sorted_desc_def)

text \<open>
  C5. \<open>get_top_moves(node, n)\<close> is the first \<open>n\<close> of the children of the node put in
  descending order of visits, whatever their wins; for children with visits 10, 3 and 20
  the top 2 are the one with 20 visits, then the one with 10.
\<close>

theorem get_top_moves_descending_visits:
  "0 \<le> n \<Longrightarrow>
     (\<exists>sorted_children.
         mset sorted_children = mset (children (ns ! node))
       \<and> sorted_wrt (\<lambda>x y. visits (ns ! y) \<le> visits (ns ! x)) sorted_children
       \<and> get_top_moves ns node n = take (nat n) sorted_children)
   \<and> (children (ns ! node) = [a, b, c]
        \<and> visits (ns ! a) = 10 \<and> visits (ns ! b) = 3 \<and> visits (ns ! c) = 20
        \<longrightarrow> get_top_moves ns node 2 = [c, a])"
  using top_moves_general[of n ns node] top_moves_example[of ns node a b c]
    mset_sorted_desc[of "\<lambda>c. visits (ns ! c)" "children (ns ! node)"]
    sorted_sorted_desc[of "\<lambda>c. visits (ns ! c)" "children (ns ! node)"]
  by blast

theorem get_top_moves_descending_visits_witness:
  "(0::int) \<le> 2 \<and> children (ranking_example ! 0) = [1, 2, 3]
   \<and> visits (ranking_example ! 1) = 10 \<and> visits (ranking_example ! 2) = 3
   \<and> visits (ranking_example ! 3) = 20
   \<and> get_top_moves ranking_example 0 2 = [3, 1]"
  using get_top_moves_descending_visits [of 2 ranking_example 0 1 2 3]
  by (simp add: ranking_example_def)

subsection \<open>ucb1 and best_child\<close>

lemma ucb1_unvisited: "visits (ns ! c) = 0 \<Longrightarrow> ucb1 ns c w = Inr PInf"
  by (simp add: ucb1_def)

lemma ucb1_visited:
  assumes "0 < visits (ns ! c)" "parent (ns ! c) = Some p" "0 < visits (ns ! p)"
  shows "ucb1 ns c w =
     Inr (Fin (wins (ns ! c) / real (visits (ns ! c))
               + w * sqrt (ln (real (visits (ns ! p))) / real (visits (ns ! c)))))"
proof -
  have "0 \<le> ln (real (visits (ns ! p)))" using assms(3) by simp
  then have "0 \<le> ln (real (visits (ns ! p))) / real (visits (ns ! c))" by simp
  then have "math_sqrt (ln (real (visits (ns ! p))) / real (visits (ns ! c)))
       = Inr (sqrt (ln (real (visits (ns ! p))) / real (visits (ns ! c))))"
    unfolding math_sqrt_def by (simp only: not_less[symmetric] if_False)
  then show ?thesis
    using assms by (simp add: ucb1_def py_div_def math_log_def)
qed

lemma ucb1_PInf_iff: "ucb1 ns c w = Inr PInf \<longleftrightarrow> visits (ns ! c) = 0"
  by (auto simp: ucb1_def split: sum.splits option.splits)

lemma ucb1_no_zero_division: "ucb1 ns c w \<noteq> Inl ZeroDivisionError"
  by (auto simp: ucb1_def py_div_def math_log_def math_sqrt_def split: sum.splits option.splits if_splits)

lemma float_gt_trans_le: "\<not> float_gt a b \<Longrightarrow> \<not> float_gt b c \<Longrightarrow> \<not> float_gt a c"
  by (cases a; cases b; cases c) auto

lemma float_gt_asym: "float_gt a b \<Longrightarrow> \<not> float_gt b a"
  by (cases a; cases b) auto

lemma float_gt_irrefl: "\<not> float_gt a a"
  by (cases a) auto

lemma max_from_Inr:
  assumes "\<forall>c\<in>set cs. \<exists>k. ucb1 ns c (14 / 10) = Inr k"
    and "ucb1 ns best (14 / 10) = Inr kbest"
  shows "\<exists>b kb. max_from ns best kbest cs = Inr b \<and> b \<in> set (best # cs)
           \<and> ucb1 ns b (14 / 10) = Inr kb \<and> \<not> float_gt kbest kb
           \<and> (\<forall>c\<in>set cs. \<forall>kc. ucb1 ns c (14 / 10) = Inr kc \<longrightarrow> \<not> float_gt kc kb)"
  using assms
proof (induction cs arbitrary: best kbest)
  case Nil
  then show ?case by (simp add: float_gt_irrefl)
next
  case (Cons c cs)
  from Cons.prems obtain k where k: "ucb1 ns c (14 / 10) = Inr k" by auto
  have rest: "\<forall>c\<in>set cs. \<exists>k. ucb1 ns c (14 / 10) = Inr k" using Cons.prems by auto
  show ?case
  proof (cases "float_gt k kbest")
    case True
    from Cons.IH[OF rest k] obtain b kb where b:
      "max_from ns c k cs = Inr b" "b \<in> set (c # cs)" "ucb1 ns b (14 / 10) = Inr kb"
      "\<not> float_gt k kb" "\<forall>c\<in>set cs. \<forall>kc. ucb1 ns c (14 / 10) = Inr kc \<longrightarrow> \<not> float_gt kc kb"
      by blast
    have "\<not> float_gt kbest kb"
      using float_gt_asym[OF True] b(4) float_gt_trans_le by blast
    then show ?thesis using True k b by auto
  next
    case False
    from Cons.IH[OF rest Cons.prems(2)] obtain b kb where b:
      "max_from ns best kbest cs = Inr b" "b \<in> set (best # cs)" "ucb1 ns b (14 / 10) = Inr kb"
      "\<not> float_gt kbest kb" "\<forall>c\<in>set cs. \<forall>kc. ucb1 ns c (14 / 10) = Inr kc \<longrightarrow> \<not> float_gt kc kb"
      by blast
    have "\<not> float_gt k kb" using False b(4) float_gt_trans_le by blast
    then show ?thesis using False k b by auto
  qed
qed

lemma best_child_Inr:
  assumes "children (ns ! p) \<noteq> []"
    and "\<forall>c\<in>set (children (ns ! p)). \<exists>k. ucb1 ns c (14 / 10) = Inr k"
  shows "\<exists>b kb. best_child ns p = Inr b \<and> b \<in> set (children (ns ! p))
           \<and> ucb1 ns b (14 / 10) = Inr kb
           \<and> (\<forall>c\<in>set (children (ns ! p)). \<forall>kc. ucb1 ns c (14 / 10) = Inr kc \<longrightarrow> \<not> float_gt kc kb)"
proof -
  from assms(1) obtain c cs where ch: "children (ns ! p) = c # cs" by (cases "children (ns ! p)") auto
  from assms(2) ch obtain k where k: "ucb1 ns c (14 / 10) = Inr k" by auto
  have rest: "\<forall>c\<in>set cs. \<exists>k. ucb1 ns c (14 / 10) = Inr k" using assms(2) ch by auto
  from max_from_Inr[OF rest k] obtain b kb where b:
    "max_from ns c k cs = Inr b" "b \<in> set (c # cs)" "ucb1 ns b (14 / 10) = Inr kb"
    "\<not> float_gt k kb" "\<forall>c\<in>set cs. \<forall>kc. ucb1 ns c (14 / 10) = Inr kc \<longrightarrow> \<not> float_gt kc kb"
    by blast
  show ?thesis using ch k b by (auto simp: best_child_def)
qed

lemma max_from_sound:
  "max_from ns best kbest cs = Inr b \<Longrightarrow> ucb1 ns best (14 / 10) = Inr kbest \<Longrightarrow>
   (\<forall>c\<in>set cs. \<exists>k. ucb1 ns c (14 / 10) = Inr k)"
  by (induction cs arbitrary: best kbest) (auto split: sum.splits if_splits)

lemma best_child_sound:
  "best_child ns p = Inr b \<Longrightarrow>
   children (ns ! p) \<noteq> [] \<and> (\<forall>c\<in>set (children (ns ! p)). \<exists>k. ucb1 ns c (14 / 10) = Inr k)"
  by (auto simp: best_child_def split: list.splits sum.splits dest: max_from_sound)

lemma best_child_prefers_unvisited:
  assumes "best_child ns p = Inr b" "c \<in> set (children (ns ! p))" "visits (ns ! c) = 0"
  shows "visits (ns ! b) = 0"
proof -
  from best_child_sound[OF assms(1)] have ne: "children (ns ! p) \<noteq> []"
    and ok: "\<forall>c\<in>set (children (ns ! p)). \<exists>k. ucb1 ns c (14 / 10) = Inr k" by auto
  from best_child_Inr[OF ne ok] assms(1) obtain kb where
    kb: "ucb1 ns b (14 / 10) = Inr kb"
    "\<forall>c\<in>set (children (ns ! p)). \<forall>kc. ucb1 ns c (14 / 10) = Inr kc \<longrightarrow> \<not> float_gt kc kb"
    by auto
  have "ucb1 ns c (14 / 10) = Inr PInf" using assms(3) by (rule ucb1_unvisited)
  with kb(2) assms(2) have "\<not> float_gt PInf kb" by blast
  then have "kb = PInf" by (cases kb) auto
  with kb(1) show ?thesis by (simp add: ucb1_PInf_iff)
qed

lemma max_from_no_zero_division: "max_from ns best kbest cs \<noteq> Inl ZeroDivisionError"
  by (induction cs arbitrary: best kbest) (auto simp: ucb1_no_zero_division split: sum.splits)

lemma best_child_no_zero_division: "best_child ns p \<noteq> Inl ZeroDivisionError"
  by (auto simp: best_child_def ucb1_no_zero_division max_from_no_zero_division split: list.splits sum.splits)

lemma ucb1_child_ok:
  assumes "visits (ns ! c) = 0 \<or> (parent (ns ! c) = Some p \<and> 0 < visits (ns ! p))"
  shows "\<exists>k. ucb1 ns c w = Inr k"
proof (cases "visits (ns ! c) = 0")
  case True
  then show ?thesis by (simp add: ucb1_unvisited)
next
  case False
  with assms show ?thesis by (simp add: ucb1_visited)
qed

text \<open>
  C3. Selection returns the child with the greatest UCB1 priority: the priority of a
  child never visited is infinite, above that of every visited sibling whatever the
  exploration weight; the priority of a visited child is
  \<open>wins / visits + C * sqrt (ln (parent visits) / visits)\<close>, with \<open>C = 1.4\<close> in
  \<open>best_child\<close>; and no division by the visits of an unvisited child takes place.
\<close>

theorem best_child_ucb1_priority:
  "(visits (ns ! u) = 0 \<longrightarrow> ucb1 ns u w = Inr PInf)
   \<and> (0 < visits (ns ! v) \<and> parent (ns ! v) = Some p \<and> 0 < visits (ns ! p)
        \<longrightarrow> ucb1 ns v w
             = Inr (Fin (wins (ns ! v) / real (visits (ns ! v))
                         + w * sqrt (ln (real (visits (ns ! p))) / real (visits (ns ! v))))))
   \<and> (visits (ns ! u) = 0 \<and> 0 < visits (ns ! v)
        \<longrightarrow> (\<forall>ku kv. ucb1 ns u w = Inr ku \<and> ucb1 ns v w' = Inr kv \<longrightarrow> float_gt ku kv))
   \<and> ucb1 ns v w \<noteq> Inl ZeroDivisionError
   \<and> best_child ns n \<noteq> Inl ZeroDivisionError
   \<and> (children (ns ! n) \<noteq> []
        \<and> (\<forall>c\<in>set (children (ns ! n)).
              visits (ns ! c) = 0 \<or> (parent (ns ! c) = Some n \<and> 0 < visits (ns ! n)))
        \<longrightarrow> (\<exists>b kb. best_child ns n = Inr b \<and> b \<in> set (children (ns ! n))
               \<and> ucb1 ns b (14 / 10) = Inr kb
               \<and> (\<forall>c\<in>set (children (ns ! n)).
                     \<exists>kc. ucb1 ns c (14 / 10) = Inr kc \<and> \<not> float_gt kc kb)
               \<and> ((\<exists>c\<in>set (children (ns ! n)). visits (ns ! c) = 0)
                     \<longrightarrow> visits (ns ! b) = 0)))"
proof -
  have a: "visits (ns ! u) = 0 \<longrightarrow> ucb1 ns u w = Inr PInf"
    by (simp add: ucb1_unvisited)
  have b: "0 < visits (ns ! v) \<and> parent (ns ! v) = Some p \<and> 0 < visits (ns ! p)
        \<longrightarrow> ucb1 ns v w
             = Inr (Fin (wins (ns ! v) / real (visits (ns ! v))
                         + w * sqrt (ln (real (visits (ns ! p))) / real (visits (ns ! v)))))"
    by (simp add: ucb1_visited)
  have c: "visits (ns ! u) = 0 \<and> 0 < visits (ns ! v)
        \<longrightarrow> (\<forall>ku kv. ucb1 ns u w = Inr ku \<and> ucb1 ns v w' = Inr kv \<longrightarrow> float_gt ku kv)"
  proof (intro impI allI, elim conjE)
    fix ku kv
    assume h: "visits (ns ! u) = 0" "0 < visits (ns ! v)"
      "ucb1 ns u w = Inr ku" "ucb1 ns v w' = Inr kv"
    from h(1,3) have "ku = PInf" by (simp add: ucb1_unvisited)
    moreover from h(2,4) have "kv \<noteq> PInf" using ucb1_PInf_iff[of ns v w'] by auto
    ultimately show "float_gt ku kv" by (cases kv) auto
  qed
  have d: "children (ns ! n) \<noteq> []
        \<and> (\<forall>c\<in>set (children (ns ! n)).
              visits (ns ! c) = 0 \<or> (parent (ns ! c) = Some n \<and> 0 < visits (ns ! n)))
        \<longrightarrow> (\<exists>b kb. best_child ns n = Inr b \<and> b \<in> set (children (ns ! n))
               \<and> ucb1 ns b (14 / 10) = Inr kb
               \<and> (\<forall>c\<in>set (children (ns ! n)).
                     \<exists>kc. ucb1 ns c (14 / 10) = Inr kc \<and> \<not> float_gt kc kb)
               \<and> ((\<exists>c\<in>set (children (ns ! n)). visits (ns ! c) = 0)
                     \<longrightarrow> visits (ns ! b) = 0))"
  proof (intro impI, elim conjE)
    assume ne: "children (ns ! n) \<noteq> []"
      and ok: "\<forall>c\<in>set (children (ns ! n)).
              visits (ns ! c) = 0 \<or> (parent (ns ! c) = Some n \<and> 0 < visits (ns ! n))"
    have keys: "\<forall>c\<in>set (children (ns ! n)). \<exists>k. ucb1 ns c (14 / 10) = Inr k"
      using ok ucb1_child_ok[of ns _ n] by blast
    from best_child_Inr[OF ne keys] obtain b kb where bk:
      "best_child ns n = Inr b" "b \<in> set (children (ns ! n))" "ucb1 ns b (14 / 10) = Inr kb"
      "\<forall>c\<in>set (children (ns ! n)). \<forall>kc. ucb1 ns c (14 / 10) = Inr kc \<longrightarrow> \<not> float_gt kc kb"
      by blast
    have "\<forall>c\<in>set (children (ns ! n)). \<exists>kc. ucb1 ns c (14 / 10) = Inr kc \<and> \<not> float_gt kc kb"
      using keys bk(4) by blast
    moreover have "(\<exists>c\<in>set (children (ns ! n)). visits (ns ! c) = 0) \<longrightarrow> visits (ns ! b) = 0"
      using best_child_prefers_unvisited[OF bk(1)] by blast
    ultimately show "\<exists>b kb. best_child ns n = Inr b \<and> b \<in> set (children (ns ! n))
               \<and> ucb1 ns b (14 / 10) = Inr kb
               \<and> (\<forall>c\<in>set (children (ns ! n)).
                     \<exists>kc. ucb1 ns c (14 / 10) = Inr kc \<and> \<not> float_gt kc kb)
               \<and> ((\<exists>c\<in>set (children (ns ! n)). visits (ns ! c) = 0)
                     \<longrightarrow> visits (ns ! b) = 0)"
      using bk(1,2,3) by blast
  qed
  show ?thesis
    using a b c d ucb1_no_zero_division[of ns v w] best_child_no_zero_division[of ns n]
    by blast
qed

theorem best_child_ucb1_priority_witness:
  "visits (priority_example ! 2) = 0
   \<and> 0 < visits (priority_example ! 1) \<and> parent (priority_example ! 1) = Some 0
   \<and> 0 < visits (priority_example ! 0)
   \<and> children (priority_example ! 0) = [1, 2]
   \<and> ucb1 priority_example 2 (14 / 10) = Inr PInf
   \<and> ucb1 priority_example 1 (14 / 10) = Inr (Fin (2 / 5 + 14 / 10 * sqrt (ln 5 / 5)))
   \<and> best_child priority_example 0 = Inr 2"
  using best_child_ucb1_priority [of priority_example 2 "14 / 10" 1 0 100 0]
  by (auto simp: priority_example_def)


subsection \<open>The tree in the store\<close>

lemma shape_okD:
  assumes "shape_ok ns"
  shows "ns \<noteq> []"
    and "parent (ns ! 0) = None"
    and "\<And>n. n < length ns \<Longrightarrow> 0 < n \<Longrightarrow> \<exists>p < n. parent (ns ! n) = Some p"
    and "\<And>n c. n < length ns \<Longrightarrow> c \<in> set (children (ns ! n)) \<Longrightarrow>
           n < c \<and> c < length ns \<and> parent (ns ! c) = Some n \<and> move (ns ! c) \<noteq> None"
    and "\<And>n. n < length ns \<Longrightarrow> distinct (children (ns ! n))"
  using assms unfolding shape_ok_def by blast+

lemma shape_okI:
  assumes "ns \<noteq> []"
    and "parent (ns ! 0) = None"
    and "\<And>n. n < length ns \<Longrightarrow> 0 < n \<Longrightarrow> \<exists>p < n. parent (ns ! n) = Some p"
    and "\<And>n c. n < length ns \<Longrightarrow> c \<in> set (children (ns ! n)) \<Longrightarrow>
           n < c \<and> c < length ns \<and> parent (ns ! c) = Some n \<and> move (ns ! c) \<noteq> None"
    and "\<And>n. n < length ns \<Longrightarrow> distinct (children (ns ! n))"
  shows "shape_ok ns"
  using assms unfolding shape_ok_def by blast

lemma tree_okD:
  assumes "tree_ok ns"
  shows "shape_ok ns"
    and "\<And>n. n < length ns \<Longrightarrow> children (ns ! n) \<noteq> [] \<Longrightarrow> 0 < visits (ns ! n)"
  using assms unfolding tree_ok_def by blast+

lemma tree_okI:
  assumes "shape_ok ns"
    and "\<And>n. n < length ns \<Longrightarrow> children (ns ! n) \<noteq> [] \<Longrightarrow> 0 < visits (ns ! n)"
  shows "tree_ok ns"
  using assms unfolding tree_ok_def by blast

subsection \<open>Expansion\<close>

lemma add_children_eq:
  "node < length ns \<Longrightarrow>
   add_children ns node ms
   = (ns @ map (\<lambda>m. Node (Some m) (Some node)) ms)
       [node := (ns ! node)\<lparr>children := children (ns ! node)
                                 @ [length ns ..< length ns + length ms]\<rparr>]"
proof (induction ms arbitrary: ns)
  case Nil
  then show ?case by simp
next
  case (Cons m ms)
  let ?ns1 = "(ns @ [Node (Some m) (Some node)])
          [node := (ns ! node)\<lparr>children := children (ns ! node) @ [length ns]\<rparr>]"
  have len: "length ?ns1 = Suc (length ns)" by simp
  have n1: "node < length ?ns1" using Cons.prems by simp
  have at: "?ns1 ! node = (ns ! node)\<lparr>children := children (ns ! node) @ [length ns]\<rparr>"
    using Cons.prems by simp
  have "[length ns ..< Suc (length ns + length ms)]
      = length ns # [Suc (length ns) ..< Suc (length ns + length ms)]"
    by (rule upt_conv_Cons) simp
  then have upt: "[length ns] @ [Suc (length ns) ..< Suc (length ns) + length ms]
      = [length ns ..< length ns + length (m # ms)]"
    by (simp del: upt_Suc)
  have "add_children ns node (m # ms) = add_children ?ns1 node ms" by simp
  also have "\<dots> = (?ns1 @ map (\<lambda>m. Node (Some m) (Some node)) ms)
       [node := (?ns1 ! node)\<lparr>children := children (?ns1 ! node)
                                 @ [length ?ns1 ..< length ?ns1 + length ms]\<rparr>]"
    by (rule Cons.IH[OF n1])
  also have "\<dots> = (ns @ map (\<lambda>m. Node (Some m) (Some node)) (m # ms))
       [node := (ns ! node)\<lparr>children := children (ns ! node)
                                 @ [length ns ..< length ns + length (m # ms)]\<rparr>]"
    unfolding at len using Cons.prems upt
    by (simp add: list_update_append1 del: upt_Suc)
  finally show ?case .
qed

lemma add_children_facts:
  assumes "leaf < length ns"
  shows "length (add_children ns leaf ms) = length ns + length ms"
    and "\<And>i. i < length ns \<Longrightarrow> i \<noteq> leaf \<Longrightarrow> add_children ns leaf ms ! i = ns ! i"
    and "add_children ns leaf ms ! leaf
           = (ns ! leaf)\<lparr>children := children (ns ! leaf)
                                      @ [length ns ..< length ns + length ms]\<rparr>"
    and "\<And>j. j < length ms \<Longrightarrow>
           add_children ns leaf ms ! (length ns + j) = Node (Some (ms ! j)) (Some leaf)"
  using assms by (simp_all add: add_children_eq nth_append)

lemma add_children_old_fields:
  assumes "leaf < length ns" "i < length ns"
  shows "parent (add_children ns leaf ms ! i) = parent (ns ! i)"
    and "move (add_children ns leaf ms ! i) = move (ns ! i)"
    and "visits (add_children ns leaf ms ! i) = visits (ns ! i)"
    and "wins (add_children ns leaf ms ! i) = wins (ns ! i)"
    and "i \<noteq> leaf \<Longrightarrow> children (add_children ns leaf ms ! i) = children (ns ! i)"
  using assms add_children_facts(2)[OF assms(1), of i ms] add_children_facts(3)[OF assms(1), of ms]
  by (cases "i = leaf"; simp)+

lemma add_children_new_fields:
  assumes "leaf < length ns" "j < length ms"
  shows "parent (add_children ns leaf ms ! (length ns + j)) = Some leaf"
    and "move (add_children ns leaf ms ! (length ns + j)) = Some (ms ! j)"
    and "children (add_children ns leaf ms ! (length ns + j)) = []"
    and "visits (add_children ns leaf ms ! (length ns + j)) = 0"
    and "wins (add_children ns leaf ms ! (length ns + j)) = 0"
  using add_children_facts(4)[OF assms] by (simp_all add: Node_def)

lemma beyond_index: "\<not> n < a \<Longrightarrow> n < a + b \<Longrightarrow> \<exists>j. n = a + j \<and> j < (b::nat)"
  by (rule exI[of _ "n - a"]) simp

lemma shape_ok_add_children:
  assumes s: "shape_ok ns" and l: "leaf < length ns" and e: "children (ns ! leaf) = []"
  shows "shape_ok (add_children ns leaf ms)"
proof (rule shape_okI)
  let ?ns' = "add_children ns leaf ms"
  have len: "length ?ns' = length ns + length ms" by (rule add_children_facts(1)[OF l])
  have "0 < length ?ns'" using len l by linarith
  then show "?ns' \<noteq> []" by (cases ?ns') simp_all
  have "0 < length ns" using l by linarith
  then show "parent (?ns' ! 0) = None"
    using add_children_old_fields(1)[OF l, of 0 ms] shape_okD(2)[OF s] by simp
  show "\<exists>p<n. parent (?ns' ! n) = Some p" if "n < length ?ns'" "0 < n" for n
  proof (cases "n < length ns")
    case True
    then show ?thesis
      using add_children_old_fields(1)[OF l True, of ms] shape_okD(3)[OF s True that(2)] by simp
  next
    case False
    from that(1) len have "n < length ns + length ms" by simp
    from beyond_index[OF False this] obtain j where j: "n = length ns + j" "j < length ms"
      by blast
    show ?thesis using add_children_new_fields(1)[OF l j(2)] j(1) l by auto
  qed
  show "n < c \<and> c < length ?ns' \<and> parent (?ns' ! c) = Some n \<and> move (?ns' ! c) \<noteq> None"
    if "n < length ?ns'" "c \<in> set (children (?ns' ! n))" for n c
  proof (cases "n < length ns")
    case True
    show ?thesis
    proof (cases "n = leaf")
      case True
      with that(2) e have "c \<in> set [length ns ..< length ns + length ms]"
        by (simp add: add_children_facts(3)[OF l])
      then have "\<not> c < length ns" "c < length ns + length ms" by simp_all
      from beyond_index[OF this] obtain j where j: "c = length ns + j" "j < length ms"
        by blast
      show ?thesis
        using add_children_new_fields(1,2)[OF l j(2)] j True l len by simp
    next
      case False
      with that(2) \<open>n < length ns\<close> have c: "c \<in> set (children (ns ! n))"
        by (simp add: add_children_old_fields(5)[OF l])
      from shape_okD(4)[OF s \<open>n < length ns\<close> c]
      have c4: "n < c" "c < length ns" "parent (ns ! c) = Some n" "move (ns ! c) \<noteq> None"
        by auto
      show ?thesis
        using c4 add_children_old_fields(1,2)[OF l c4(2), of ms] len by simp
    qed
  next
    case False
    from that(1) len have "n < length ns + length ms" by simp
    from beyond_index[OF False this] obtain j where j: "n = length ns + j" "j < length ms"
      by blast
    with that(2) show ?thesis by (simp add: add_children_new_fields(3)[OF l j(2)])
  qed
  show "distinct (children (?ns' ! n))" if "n < length ?ns'" for n
  proof (cases "n < length ns")
    case True
    show ?thesis
    proof (cases "n = leaf")
      case True
      then show ?thesis using e by (simp add: add_children_facts(3)[OF l])
    next
      case False
      then show ?thesis
        using shape_okD(5)[OF s True] True by (simp add: add_children_old_fields(5)[OF l])
    qed
  next
    case False
    from that len have "n < length ns + length ms" by simp
    from beyond_index[OF False this] obtain j where j: "n = length ns + j" "j < length ms"
      by blast
    then show ?thesis by (simp add: add_children_new_fields(3)[OF l j(2)])
  qed
qed

subsection \<open>Backpropagation\<close>

lemma path_to_root_le: "x \<in> set (path_to_root ns n) \<Longrightarrow> x \<le> n"
proof (induction ns n rule: path_to_root.induct)
  case (1 ns n)
  have eq: "path_to_root ns n
      = n # (case parent (ns ! n) of None \<Rightarrow> []
             | Some p \<Rightarrow> if p < n then path_to_root ns p else [])"
    by (rule path_to_root.simps)
  show ?case
  proof (cases "x = n")
    case True
    then show ?thesis by simp
  next
    case False
    show ?thesis
    proof (cases "parent (ns ! n)")
      case None
      with "1.prems"[unfolded eq] False show ?thesis by simp
    next
      case (Some p)
      with "1.prems"[unfolded eq] False have p: "p < n" "x \<in> set (path_to_root ns p)"
        by (auto split: if_splits)
      from "1.IH"[OF Some p] p(1) show ?thesis by simp
    qed
  qed
qed

lemma path_to_root_cong:
  "\<forall>i. parent (ns' ! i) = parent (ns ! i) \<Longrightarrow> path_to_root ns' n = path_to_root ns n"
proof (induction ns n rule: path_to_root.induct)
  case (1 ns n)
  have eq: "path_to_root ns n
      = n # (case parent (ns ! n) of None \<Rightarrow> []
             | Some p \<Rightarrow> if p < n then path_to_root ns p else [])"
    by (rule path_to_root.simps)
  have eq': "path_to_root ns' n
      = n # (case parent (ns' ! n) of None \<Rightarrow> []
             | Some p \<Rightarrow> if p < n then path_to_root ns' p else [])"
    by (rule path_to_root.simps)
  show ?case
  proof (cases "parent (ns ! n)")
    case None
    then show ?thesis unfolding eq eq' using "1.prems" by simp
  next
    case (Some p)
    show ?thesis
    proof (cases "p < n")
      case True
      from "1.IH"[OF Some True "1.prems"] show ?thesis
        unfolding eq eq' using "1.prems" Some True by simp
    next
      case False
      then show ?thesis unfolding eq eq' using "1.prems" Some by simp
    qed
  qed
qed

lemma path_to_root_self: "n \<in> set (path_to_root ns n)"
  by (subst path_to_root.simps) simp

lemma length_bumped [simp]: "length (bumped ns d path) = length ns"
  by (simp add: bumped_def)

lemma nth_bumped:
  "i < length ns \<Longrightarrow>
   bumped ns d path ! i = (if i \<in> set path then bump d (ns ! i) else ns ! i)"
  by (simp add: bumped_def)

lemma parent_bump [simp]: "parent (bump d nd) = parent nd"
  and children_bump [simp]: "children (bump d nd) = children nd"
  and move_bump [simp]: "move (bump d nd) = move nd"
  and visits_bump [simp]: "visits (bump d nd) = Suc (visits nd)"
  and wins_bump [simp]: "wins (bump d nd) = wins nd + d"
  by (simp_all add: bump_def)

lemma backpropagate_None [simp]: "backpropagate g b s ns None = Some ns"
  by (subst backpropagate.simps) simp

lemma backpropagate_Some:
  "backpropagate g b s ns (Some n)
   = backpropagate g b s (ns[n := bump (signed g b s) (ns ! n)]) (parent (ns ! n))"
  by (subst backpropagate.simps) (simp add: bump_def signed_def)

lemma backpropagate_eq:
  "parents_before ns \<Longrightarrow> n < length ns \<Longrightarrow>
   backpropagate g b s ns (Some n) = Some (bumped ns (signed g b s) (path_to_root ns n))"
proof (induction n arbitrary: ns rule: less_induct)
  case (less n)
  let ?d = "signed g b s"
  let ?ns1 = "ns[n := bump ?d (ns ! n)]"
  show ?case
  proof (cases "parent (ns ! n)")
    case None
    have "path_to_root ns n = [n]"
      by (subst path_to_root.simps) (simp add: None)
    moreover have "?ns1 = bumped ns ?d [n]"
      by (rule nth_equalityI) (auto simp: nth_bumped nth_list_update)
    ultimately show ?thesis
      by (simp add: backpropagate_Some None)
  next
    case (Some p)
    have pn: "p < n" using less.prems Some by (auto simp: parents_before_def split: option.splits)
    have par: "\<forall>i. parent (?ns1 ! i) = parent (ns ! i)"
      using less.prems(2) by (auto simp: nth_list_update)
    have pb1: "parents_before ?ns1"
      using less.prems(1) par by (simp add: parents_before_def)
    have "backpropagate g b s ?ns1 (Some p) = Some (bumped ?ns1 ?d (path_to_root ?ns1 p))"
      using less.IH[OF pn pb1] pn less.prems(2) by simp
    moreover have p1: "path_to_root ?ns1 p = path_to_root ns p"
      by (rule path_to_root_cong[OF par])
    moreover have pth: "path_to_root ns n = n # path_to_root ns p"
      by (subst path_to_root.simps) (simp add: Some pn)
    moreover have "bumped ?ns1 ?d (path_to_root ns p) = bumped ns ?d (n # path_to_root ns p)"
    proof (rule nth_equalityI)
      show "length (bumped ?ns1 ?d (path_to_root ns p))
          = length (bumped ns ?d (n # path_to_root ns p))" by simp
    next
      fix i assume "i < length (bumped ?ns1 ?d (path_to_root ns p))"
      then have i: "i < length ns" by simp
      have "n \<notin> set (path_to_root ns p)" using path_to_root_le[of n ns p] pn by auto
      then show "bumped ?ns1 ?d (path_to_root ns p) ! i
          = bumped ns ?d (n # path_to_root ns p) ! i"
        using i by (cases "i = n") (simp_all add: nth_bumped)
    qed
    ultimately show ?thesis
      by (simp add: backpropagate_Some Some)
  qed
qed

lemma shape_ok_parents_before: "shape_ok ns \<Longrightarrow> parents_before ns"
proof -
  assume t: "shape_ok ns"
  have "case parent (ns ! n) of None \<Rightarrow> True | Some p \<Rightarrow> p < n" if "n < length ns" for n
  proof (cases "n = 0")
    case True
    with shape_okD(2)[OF t] show ?thesis by simp
  next
    case False
    with shape_okD(3)[OF t that] obtain p where "p < n" "parent (ns ! n) = Some p"
      by blast
    then show ?thesis by simp
  qed
  then show ?thesis by (simp add: parents_before_def)
qed

lemma root_on_path: "shape_ok ns \<Longrightarrow> n < length ns \<Longrightarrow> 0 \<in> set (path_to_root ns n)"
proof (induction n rule: less_induct)
  case (less n)
  show ?case
  proof (cases "n = 0")
    case True
    then show ?thesis by (simp add: path_to_root_self)
  next
    case False
    with shape_okD(3)[OF less.prems(1) less.prems(2)]
    obtain p where p: "p < n" "parent (ns ! n) = Some p"
      by blast
    from less.IH[OF p(1) less.prems(1)] p(1) less.prems(2)
    have "0 \<in> set (path_to_root ns p)" by simp
    then show ?thesis
      by (subst path_to_root.simps) (simp add: p)
  qed
qed

lemma bumped_fields:
  assumes "i < length ns"
  shows "parent (bumped ns d path ! i) = parent (ns ! i)"
    and "move (bumped ns d path ! i) = move (ns ! i)"
    and "children (bumped ns d path ! i) = children (ns ! i)"
    and "visits (bumped ns d path ! i) = (if i \<in> set path then Suc (visits (ns ! i)) else visits (ns ! i))"
    and "wins (bumped ns d path ! i) = (if i \<in> set path then wins (ns ! i) + d else wins (ns ! i))"
  using assms by (simp_all add: nth_bumped)

lemma shape_ok_bumped: "shape_ok ns \<Longrightarrow> shape_ok (bumped ns d path)"
proof -
  assume s: "shape_ok ns"
  have ne: "0 < length ns" using shape_okD(1)[OF s] by simp
  show ?thesis
  proof (rule shape_okI)
    show "bumped ns d path \<noteq> []" using ne by (auto simp: bumped_def)
    show "parent (bumped ns d path ! 0) = None"
      using shape_okD(2)[OF s] ne by (simp add: bumped_fields)
    show "\<exists>p<n. parent (bumped ns d path ! n) = Some p"
      if "n < length (bumped ns d path)" "0 < n" for n
      using shape_okD(3)[OF s, of n] that by (simp add: bumped_fields)
    show "n < c \<and> c < length (bumped ns d path) \<and> parent (bumped ns d path ! c) = Some n
           \<and> move (bumped ns d path ! c) \<noteq> None"
      if "n < length (bumped ns d path)" "c \<in> set (children (bumped ns d path ! n))" for n c
    proof -
      from that have n: "n < length ns" and c: "c \<in> set (children (ns ! n))"
        by (simp_all add: bumped_fields)
      from shape_okD(4)[OF s n c] show ?thesis by (simp add: bumped_fields)
    qed
    show "distinct (children (bumped ns d path ! n))" if "n < length (bumped ns d path)" for n
      using shape_okD(5)[OF s, of n] that by (simp add: bumped_fields)
  qed
qed

subsection \<open>Selection\<close>

lemma board_push_frame [simp]: "length (board_push g bs tb m) = length bs"
  and board_push_other: "i \<noteq> tb \<Longrightarrow> board_push g bs tb m ! i = bs ! i"
  and board_push_at: "tb < length bs \<Longrightarrow> board_push g bs tb m ! tb = push g (bs ! tb) m"
  by (simp_all add: board_push_def)

lemma select_returns:
  assumes t: "tree_ok ns"
  shows "node < length ns \<Longrightarrow>
    \<exists>leaf bs'. select g ns tb bs node = Some (Inr (leaf, bs'))
       \<and> leaf < length ns \<and> children (ns ! leaf) = []
       \<and> length bs' = length bs \<and> (\<forall>i. i \<noteq> tb \<longrightarrow> bs' ! i = bs ! i)"
proof (induction "length ns - node" arbitrary: node bs rule: less_induct)
  case less
  show ?case
  proof (cases "children (ns ! node) = []")
    case True
    then show ?thesis using less.prems by (subst select.simps) simp
  next
    case False
    have vis: "0 < visits (ns ! node)" by (rule tree_okD(2)[OF t less.prems False])
    have keys: "\<forall>c\<in>set (children (ns ! node)). \<exists>k. ucb1 ns c (14 / 10) = Inr k"
    proof
      fix c assume "c \<in> set (children (ns ! node))"
      with shape_okD(4)[OF tree_okD(1)[OF t] less.prems] have "parent (ns ! c) = Some node" by blast
      with vis show "\<exists>k. ucb1 ns c (14 / 10) = Inr k"
        using ucb1_child_ok[of ns c node] by simp
    qed
    from best_child_Inr[OF False keys] obtain b where b:
      "best_child ns node = Inr b" "b \<in> set (children (ns ! node))" by blast
    from shape_okD(4)[OF tree_okD(1)[OF t] less.prems b(2)] obtain m where m:
      "node < b" "b < length ns" "move (ns ! b) = Some m" by auto
    have "length ns - b < length ns - node" using m(1,2) by simp
    from less.hyps[OF this m(2), of "board_push g bs tb m"] obtain leaf bs' where r:
      "select g ns tb (board_push g bs tb m) b = Some (Inr (leaf, bs'))"
      "leaf < length ns" "children (ns ! leaf) = []"
      "length bs' = length bs" "\<forall>i. i \<noteq> tb \<longrightarrow> bs' ! i = board_push g bs tb m ! i"
      by auto
    have "select g ns tb bs node = select g ns tb (board_push g bs tb m) b"
      by (subst select.simps) (simp add: False b(1) m(3))
    with r show ?thesis by (simp add: board_push_other)
  qed
qed

lemma select_sound_aux:
  assumes "select g ns tb bs node = Some r"
  shows "case r of Inl e \<Rightarrow> True
         | Inr (leaf, bs') \<Rightarrow> children (ns ! leaf) = [] \<and> length bs' = length bs
                              \<and> (\<forall>i. i \<noteq> tb \<longrightarrow> bs' ! i = bs ! i)"
proof (rule select.raw_induct[where P = "\<lambda>g ns tb bs node r. case r of Inl e \<Rightarrow> True
         | Inr (leaf, bs') \<Rightarrow> children (ns ! leaf) = [] \<and> length bs' = length bs
                              \<and> (\<forall>i. i \<noteq> tb \<longrightarrow> bs' ! i = bs ! i)", OF _ assms])
  fix sel :: "('a, 'b) game \<Rightarrow> 'b nodes \<Rightarrow> ref \<Rightarrow> 'a boards \<Rightarrow> ref
                \<Rightarrow> (error + (ref \<times> 'a boards)) option"
  fix g ns tb bs node r
  assume IH: "\<And>g ns tb bs node r. sel g ns tb bs node = Some r \<Longrightarrow>
      (case r of Inl e \<Rightarrow> True
         | Inr (leaf, bs') \<Rightarrow> children (ns ! leaf) = [] \<and> length bs' = length bs
                              \<and> (\<forall>i. i \<noteq> tb \<longrightarrow> bs' ! i = bs ! i))"
  assume eq: "(if children (ns ! node) = [] then Some (Inr (node, bs))
      else case best_child ns node of
        Inl e \<Rightarrow> Some (Inl e)
      | Inr c \<Rightarrow>
         (case move (ns ! c) of
            None \<Rightarrow> Some (Inl AttributeError)
          | Some m \<Rightarrow> sel g ns tb (board_push g bs tb m) c)) = Some r"
  show "case r of Inl e \<Rightarrow> True
         | Inr (leaf, bs') \<Rightarrow> children (ns ! leaf) = [] \<and> length bs' = length bs
                              \<and> (\<forall>i. i \<noteq> tb \<longrightarrow> bs' ! i = bs ! i)"
  proof (cases "children (ns ! node) = []")
    case True
    with eq show ?thesis by auto
  next
    case False
    show ?thesis
    proof (cases "best_child ns node")
      case (Inl e)
      with eq False show ?thesis by auto
    next
      case (Inr c)
      show ?thesis
      proof (cases "move (ns ! c)")
        case None
        with eq False Inr show ?thesis by auto
      next
        case (Some m)
        with eq False Inr
        have "sel g ns tb (board_push g bs tb m) c = Some r" by simp
        from IH[OF this] show ?thesis
          by (auto split: sum.splits simp: board_push_other)
      qed
    qed
  qed
qed

lemma select_sound:
  "select g ns tb bs node = Some (Inr (leaf, bs')) \<Longrightarrow>
     children (ns ! leaf) = [] \<and> length bs' = length bs \<and> (\<forall>i. i \<noteq> tb \<longrightarrow> bs' ! i = bs ! i)"
  using select_sound_aux[of g ns tb bs node "Inr (leaf, bs')"] by simp

subsection \<open>Simulation\<close>

lemma play_Nil [simp]: "play g b [] = b"
  and play_Cons [simp]: "play g b (m # ms) = play g (push g b m) ms"
  by (simp_all add: play_def)

declare rollout.simps [simp del]

lemma rollout_cases:
  assumes "tb < length bs"
  shows "(\<exists>ms. rollout g rnd tb sd bs k d = Inr (bs[tb := play g (bs ! tb) ms], k + length ms)
            \<and> playout g rnd k (bs ! tb) ms
            \<and> length ms \<le> nat (sd - d)
            \<and> (is_game_over g (play g (bs ! tb) ms) \<or> length ms = nat (sd - d)))
       \<or> (rollout g rnd tb sd bs k d = Inl IndexError \<and> \<not> rules_consistent g)"
  using assms
proof (induction g rnd tb sd bs k d rule: rollout.induct)
  case (1 g rnd tb sd bs k d)
  let ?b = "bs ! tb"
  show ?case
  proof (cases "\<not> is_game_over g ?b \<and> d < sd")
    case False
    then have "rollout g rnd tb sd bs k d = Inr (bs, k)"
      by (subst rollout.simps) (simp only: if_False)
    moreover have "is_game_over g ?b \<or> 0 = nat (sd - d)" using False by auto
    ultimately show ?thesis
      by (intro disjI1 exI[of _ "[]"]) simp
  next
    case True
    show ?thesis
    proof (cases "legal_moves g ?b = []")
      case True': True
      from True True' have "rollout g rnd tb sd bs k d = Inl IndexError"
        by (subst rollout.simps) (simp add: random_choice_def)
      moreover have "\<not> rules_consistent g" using True True' by (auto simp: rules_consistent_def)
      ultimately show ?thesis by simp
    next
      case False
      let ?m = "legal_moves g ?b ! (rnd k mod length (legal_moves g ?b))"
      let ?bs1 = "board_push g bs tb ?m"
      have rc: "random_choice rnd k (legal_moves g ?b) = Inr (?m, Suc k)"
        using False by (simp add: random_choice_def)
      have step: "rollout g rnd tb sd bs k d = rollout g rnd tb sd ?bs1 (Suc k) (d + 1)"
        using True rc by (subst rollout.simps) simp
      have tb1: "tb < length ?bs1" using "1.prems" by simp
      have b1: "?bs1 ! tb = push g ?b ?m" using "1.prems" by (simp add: board_push_at)
      from "1.IH"[OF True rc refl tb1]
      show ?thesis
      proof
        assume "\<exists>ms. rollout g rnd tb sd ?bs1 (Suc k) (d + 1)
                  = Inr (?bs1[tb := play g (?bs1 ! tb) ms], Suc k + length ms)
            \<and> playout g rnd (Suc k) (?bs1 ! tb) ms
            \<and> length ms \<le> nat (sd - (d + 1))
            \<and> (is_game_over g (play g (?bs1 ! tb) ms) \<or> length ms = nat (sd - (d + 1)))"
        then obtain ms where ms:
          "rollout g rnd tb sd ?bs1 (Suc k) (d + 1)
                  = Inr (?bs1[tb := play g (?bs1 ! tb) ms], Suc k + length ms)"
          "playout g rnd (Suc k) (?bs1 ! tb) ms"
          "length ms \<le> nat (sd - (d + 1))"
          "is_game_over g (play g (?bs1 ! tb) ms) \<or> length ms = nat (sd - (d + 1))"
          by blast
        have "rollout g rnd tb sd bs k d
            = Inr (bs[tb := play g ?b (?m # ms)], k + length (?m # ms))"
          using step ms(1) b1 by (simp add: board_push_def)
        moreover have "playout g rnd k ?b (?m # ms)"
          using True False ms(2) b1 by simp
        moreover have "length (?m # ms) \<le> nat (sd - d)"
          using True ms(3) by auto
        moreover have "is_game_over g (play g ?b (?m # ms)) \<or> length (?m # ms) = nat (sd - d)"
          using True ms(4) b1 by auto
        ultimately show ?thesis by blast
      next
        assume "rollout g rnd tb sd ?bs1 (Suc k) (d + 1) = Inl IndexError \<and> \<not> rules_consistent g"
        with step show ?thesis by simp
      qed
    qed
  qed
qed

subsection \<open>One pass of the loop\<close>

lemma expand_over:
  "is_game_over g (bs ! tb) \<Longrightarrow> expand g rnd tb ns bs k leaf = Inr (ns, bs, k, leaf)"
  by (simp add: expand_def)

lemma expand_open:
  assumes "\<not> is_game_over g (bs ! tb)" "legal_moves g (bs ! tb) \<noteq> []"
    and "leaf < length ns" "children (ns ! leaf) = []"
  shows "expand g rnd tb ns bs k leaf
     = Inr (add_children ns leaf (legal_moves g (bs ! tb)),
            board_push g bs tb
              (legal_moves g (bs ! tb) ! (rnd k mod length (legal_moves g (bs ! tb)))),
            Suc k,
            length ns + rnd k mod length (legal_moves g (bs ! tb)))"
proof -
  let ?ms = "legal_moves g (bs ! tb)"
  let ?j = "rnd k mod length ?ms"
  have j: "?j < length ?ms" using assms(2) by simp
  have ch: "children (add_children ns leaf ?ms ! leaf) = [length ns ..< length ns + length ?ms]"
    using assms(4) by (simp add: add_children_facts(3)[OF assms(3)])
  have "random_choice rnd k (children (add_children ns leaf ?ms ! leaf))
      = Inr (length ns + ?j, Suc k)"
    using assms(2) j unfolding ch random_choice_def by simp
  then show ?thesis
    using assms(1) add_children_new_fields(2)[OF assms(3) j]
    by (simp add: expand_def Let_def)
qed

lemma expand_stuck:
  assumes "\<not> is_game_over g (bs ! tb)" "legal_moves g (bs ! tb) = []"
  shows "expand g rnd tb ns bs k leaf = Inl IndexError \<or> children (ns ! leaf) \<noteq> []"
  using assms by (auto simp: expand_def random_choice_def)

lemma board_copy_eq: "board_copy bs r = (bs @ [bs ! r], length bs)"
  by (simp add: board_copy_def)

lemma iteration_result:
  assumes rc: "rules_consistent g" and t: "tree_ok (nodes w)" and b: "board < length (boards w)"
  shows "\<exists>leaf bs1 ns2 bs2 k2 node ms.
      select g (nodes w) (length (boards w)) (boards w @ [boards w ! board]) 0
        = Some (Inr (leaf, bs1))
    \<and> leaf < length (nodes w) \<and> children (nodes w ! leaf) = []
    \<and> length bs1 = Suc (length (boards w)) \<and> (\<forall>i < length (boards w). bs1 ! i = boards w ! i)
    \<and> expand g rnd (length (boards w)) (nodes w) bs1 (draws w) leaf = Inr (ns2, bs2, k2, node)
    \<and> ((is_game_over g (bs1 ! length (boards w))
          \<and> ns2 = nodes w \<and> bs2 = bs1 \<and> k2 = draws w \<and> node = leaf)
       \<or> (\<not> is_game_over g (bs1 ! length (boards w))
          \<and> legal_moves g (bs1 ! length (boards w)) \<noteq> []
          \<and> ns2 = add_children (nodes w) leaf (legal_moves g (bs1 ! length (boards w)))
          \<and> node = length (nodes w)
                   + rnd (draws w) mod length (legal_moves g (bs1 ! length (boards w)))
          \<and> bs2 = board_push g bs1 (length (boards w))
                    (legal_moves g (bs1 ! length (boards w))
                       ! (rnd (draws w) mod length (legal_moves g (bs1 ! length (boards w)))))
          \<and> k2 = Suc (draws w)))
    \<and> shape_ok ns2 \<and> node < length ns2 \<and> leaf \<in> set (path_to_root ns2 node)
    \<and> playout g rnd k2 (bs2 ! length (boards w)) ms \<and> length ms \<le> nat sd
    \<and> (is_game_over g (play g (bs2 ! length (boards w)) ms) \<or> length ms = nat sd)
    \<and> iteration g rnd board sd 0 w
        = Some (Inr \<lparr>nodes = bumped ns2
                               (signed g (play g (bs2 ! length (boards w)) ms)
                                  (score_of g (play g (bs2 ! length (boards w)) ms)))
                               (path_to_root ns2 node),
                      boards = bs2[length (boards w) := play g (bs2 ! length (boards w)) ms],
                      draws = k2 + length ms\<rparr>)"
proof -
  let ?tb = "length (boards w)"
  let ?bs0 = "boards w @ [boards w ! board]"
  let ?ns = "nodes w"
  have s: "shape_ok ?ns" by (rule tree_okD(1)[OF t])
  have root: "0 < length ?ns" using shape_okD(1)[OF s] by simp
  from select_returns[OF t root, of g ?tb ?bs0] obtain leaf bs1 where sel:
    "select g ?ns ?tb ?bs0 0 = Some (Inr (leaf, bs1))"
    "leaf < length ?ns" "children (?ns ! leaf) = []"
    "length bs1 = length ?bs0" "\<forall>i. i \<noteq> ?tb \<longrightarrow> bs1 ! i = ?bs0 ! i"
    by blast
  have len1: "length bs1 = Suc ?tb" using sel(4) by simp
  have old1: "\<forall>i < ?tb. bs1 ! i = boards w ! i" using sel(5) by (simp add: nth_append)
  have tb1: "?tb < length bs1" using len1 by simp
  let ?ms = "legal_moves g (bs1 ! ?tb)"
  let ?j = "rnd (draws w) mod length ?ms"
  obtain ns2 bs2 k2 node where ex:
    "expand g rnd ?tb ?ns bs1 (draws w) leaf = Inr (ns2, bs2, k2, node)"
    "(is_game_over g (bs1 ! ?tb) \<and> ns2 = ?ns \<and> bs2 = bs1 \<and> k2 = draws w \<and> node = leaf)
     \<or> (\<not> is_game_over g (bs1 ! ?tb) \<and> ?ms \<noteq> []
         \<and> ns2 = add_children ?ns leaf ?ms \<and> node = length ?ns + ?j
         \<and> bs2 = board_push g bs1 ?tb (?ms ! ?j) \<and> k2 = Suc (draws w))"
  proof (cases "is_game_over g (bs1 ! ?tb)")
    case True
    then show ?thesis using that expand_over[of g bs1 ?tb rnd ?ns "draws w" leaf] by blast
  next
    case False
    with rc have ne: "?ms \<noteq> []" by (simp add: rules_consistent_def)
    show ?thesis using that expand_open[OF False ne sel(2,3), of rnd "draws w"] False ne by blast
  qed
  have tb2: "?tb < length bs2" using ex(2) tb1 by auto
  from rollout_cases[OF tb2, of g rnd sd k2 0] rc obtain ms where ro:
    "rollout g rnd ?tb sd bs2 k2 0 = Inr (bs2[?tb := play g (bs2 ! ?tb) ms], k2 + length ms)"
    "playout g rnd k2 (bs2 ! ?tb) ms" "length ms \<le> nat sd"
    "is_game_over g (play g (bs2 ! ?tb) ms) \<or> length ms = nat sd"
    by auto
  let ?final = "play g (bs2 ! ?tb) ms"
  have fin: "bs2[?tb := ?final] ! ?tb = ?final" using tb2 by simp
  have s2: "shape_ok ns2" and node2: "node < length ns2"
  proof -
    from ex(2) show "shape_ok ns2"
      using s shape_ok_add_children[OF s sel(2,3)] by auto
    from ex(2) show "node < length ns2"
    proof
      assume "is_game_over g (bs1 ! ?tb) \<and> ns2 = ?ns \<and> bs2 = bs1 \<and> k2 = draws w \<and> node = leaf"
      then show ?thesis using sel(2) by simp
    next
      assume a: "\<not> is_game_over g (bs1 ! ?tb) \<and> ?ms \<noteq> []
         \<and> ns2 = add_children ?ns leaf ?ms \<and> node = length ?ns + ?j
         \<and> bs2 = board_push g bs1 ?tb (?ms ! ?j) \<and> k2 = Suc (draws w)"
      then have "?j < length ?ms" by simp
      with a show ?thesis by (simp add: add_children_facts(1)[OF sel(2)])
    qed
  qed
  have onpath: "leaf \<in> set (path_to_root ns2 node)"
    using ex(2)
  proof
    assume "is_game_over g (bs1 ! ?tb) \<and> ns2 = ?ns \<and> bs2 = bs1 \<and> k2 = draws w \<and> node = leaf"
    then show ?thesis by (simp add: path_to_root_self)
  next
    assume a: "\<not> is_game_over g (bs1 ! ?tb) \<and> ?ms \<noteq> []
         \<and> ns2 = add_children ?ns leaf ?ms \<and> node = length ?ns + ?j
         \<and> bs2 = board_push g bs1 ?tb (?ms ! ?j) \<and> k2 = Suc (draws w)"
    then have j: "?j < length ?ms" by simp
    have "parent (ns2 ! node) = Some leaf"
      using a add_children_new_fields(1)[OF sel(2) j] by simp
    moreover have "leaf < node" using a sel(2) by simp
    ultimately have "path_to_root ns2 node = node # path_to_root ns2 leaf"
      by (subst path_to_root.simps) simp
    then show ?thesis by (simp add: path_to_root_self)
  qed
  have bp: "backpropagate g ?final (score_of g ?final) ns2 (Some node)
      = Some (bumped ns2 (signed g ?final (score_of g ?final)) (path_to_root ns2 node))"
    by (rule backpropagate_eq[OF shape_ok_parents_before[OF s2] node2])
  have "iteration g rnd board sd 0 w
      = Some (Inr \<lparr>nodes = bumped ns2 (signed g ?final (score_of g ?final)) (path_to_root ns2 node),
                    boards = bs2[?tb := ?final], draws = k2 + length ms\<rparr>)"
    unfolding iteration_def board_copy_eq using sel(1) ex(1) ro(1) bp fin by simp
  with sel(1,2,3) len1 old1 ex s2 node2 onpath ro(2,3,4) show ?thesis by blast
qed

lemma iteration_step:
  assumes rc: "rules_consistent g" and t: "tree_ok (nodes w)" and b: "board < length (boards w)"
  shows "\<exists>w'. iteration g rnd board sd 0 w = Some (Inr w')
     \<and> tree_ok (nodes w')
     \<and> visits (nodes w' ! 0) = Suc (visits (nodes w ! 0))
     \<and> length (boards w') = Suc (length (boards w))
     \<and> (\<forall>i < length (boards w). boards w' ! i = boards w ! i)
     \<and> length (nodes w) \<le> length (nodes w')
     \<and> (\<forall>n < length (nodes w). visits (nodes w ! n) \<le> visits (nodes w' ! n))
     \<and> (\<forall>n < length (nodes w). children (nodes w ! n) \<noteq> []
            \<longrightarrow> children (nodes w' ! n) = children (nodes w ! n))"
proof -
  let ?tb = "length (boards w)"
  let ?ns = "nodes w"
  from iteration_result[OF rc t b, of rnd sd]
  obtain leaf bs1 ns2 bs2 k2 node ms where
    leaf: "leaf < length ?ns" "children (?ns ! leaf) = []"
    and bs1: "length bs1 = Suc ?tb" "\<forall>i < ?tb. bs1 ! i = boards w ! i"
    and ex: "(is_game_over g (bs1 ! ?tb) \<and> ns2 = ?ns \<and> bs2 = bs1 \<and> k2 = draws w \<and> node = leaf)
       \<or> (\<not> is_game_over g (bs1 ! ?tb)
          \<and> legal_moves g (bs1 ! ?tb) \<noteq> []
          \<and> ns2 = add_children ?ns leaf (legal_moves g (bs1 ! ?tb))
          \<and> node = length ?ns + rnd (draws w) mod length (legal_moves g (bs1 ! ?tb))
          \<and> bs2 = board_push g bs1 ?tb
                    (legal_moves g (bs1 ! ?tb)
                       ! (rnd (draws w) mod length (legal_moves g (bs1 ! ?tb))))
          \<and> k2 = Suc (draws w))"
    and s2: "shape_ok ns2" "node < length ns2" "leaf \<in> set (path_to_root ns2 node)"
    and it: "iteration g rnd board sd 0 w
        = Some (Inr \<lparr>nodes = bumped ns2
                               (signed g (play g (bs2 ! ?tb) ms) (score_of g (play g (bs2 ! ?tb) ms)))
                               (path_to_root ns2 node),
                      boards = bs2[?tb := play g (bs2 ! ?tb) ms],
                      draws = k2 + length ms\<rparr>)"
    by blast
  let ?d = "signed g (play g (bs2 ! ?tb) ms) (score_of g (play g (bs2 ! ?tb) ms))"
  let ?path = "path_to_root ns2 node"
  let ?ns4 = "bumped ns2 ?d ?path"
  have s: "shape_ok ?ns" by (rule tree_okD(1)[OF t])
  \<comment> \<open>the store after expansion extends the old one\<close>
  have len2: "length ?ns \<le> length ns2"
    using ex add_children_facts(1)[OF leaf(1)] by auto
  have old2: "parent (ns2 ! n) = parent (?ns ! n) \<and> move (ns2 ! n) = move (?ns ! n)
       \<and> visits (ns2 ! n) = visits (?ns ! n) \<and> wins (ns2 ! n) = wins (?ns ! n)
       \<and> (n \<noteq> leaf \<longrightarrow> children (ns2 ! n) = children (?ns ! n))" if "n < length ?ns" for n
    using ex add_children_old_fields[OF leaf(1) that] by auto
  have new2: "children (ns2 ! n) = []" if "n < length ns2" "\<not> n < length ?ns" for n
  proof -
    from ex that have a: "ns2 = add_children ?ns leaf (legal_moves g (bs1 ! ?tb))" by auto
    with that(1) have "n < length ?ns + length (legal_moves g (bs1 ! ?tb))"
      by (simp add: add_children_facts(1)[OF leaf(1)])
    from beyond_index[OF that(2) this] obtain j where
      "n = length ?ns + j" "j < length (legal_moves g (bs1 ! ?tb))" by blast
    then show ?thesis using a add_children_new_fields(3)[OF leaf(1)] by simp
  qed
  have t4: "tree_ok ?ns4"
  proof (rule tree_okI)
    show "shape_ok ?ns4" by (rule shape_ok_bumped[OF s2(1)])
    show "0 < visits (?ns4 ! n)" if "n < length ?ns4" "children (?ns4 ! n) \<noteq> []" for n
    proof -
      from that have n2: "n < length ns2" and ch: "children (ns2 ! n) \<noteq> []"
        by (simp_all add: bumped_fields)
      from new2[OF n2] ch have n: "n < length ?ns" by blast
      show ?thesis
      proof (cases "n = leaf")
        case True
        then show ?thesis using s2(3) n2 by (simp add: bumped_fields)
      next
        case False
        with old2[OF n] ch have "children (?ns ! n) \<noteq> []" "visits (ns2 ! n) = visits (?ns ! n)"
          by simp_all
        with tree_okD(2)[OF t n] show ?thesis using n2 by (simp add: bumped_fields)
      qed
    qed
  qed
  have root2: "0 < length ns2" using shape_okD(1)[OF s2(1)] by simp
  have root: "0 < length ?ns" using shape_okD(1)[OF s] by simp
  have "visits (?ns4 ! 0) = Suc (visits (ns2 ! 0))"
    using root_on_path[OF s2(1,2)] root2 by (simp add: bumped_fields)
  then have v0: "visits (?ns4 ! 0) = Suc (visits (?ns ! 0))"
    using old2[OF root] by simp
  have tb2: "length bs2 = Suc ?tb" "\<forall>i < ?tb. bs2 ! i = boards w ! i"
    using ex bs1 by (auto simp: board_push_other)
  have b4: "length (bs2[?tb := play g (bs2 ! ?tb) ms]) = Suc ?tb"
    "\<forall>i < ?tb. bs2[?tb := play g (bs2 ! ?tb) ms] ! i = boards w ! i"
    using tb2 by simp_all
  have l4: "length ?ns \<le> length ?ns4" using len2 by simp
  have mono: "\<forall>n < length ?ns. visits (?ns ! n) \<le> visits (?ns4 ! n)"
  proof (intro allI impI)
    fix n assume n: "n < length ?ns"
    then have "n < length ns2" using len2 by simp
    then show "visits (?ns ! n) \<le> visits (?ns4 ! n)"
      using old2[OF n] by (simp add: bumped_fields)
  qed
  have kids: "\<forall>n < length ?ns. children (?ns ! n) \<noteq> []
            \<longrightarrow> children (?ns4 ! n) = children (?ns ! n)"
  proof (intro allI impI)
    fix n assume n: "n < length ?ns" and c: "children (?ns ! n) \<noteq> []"
    then have "n \<noteq> leaf" using leaf(2) by auto
    moreover have "n < length ns2" using n len2 by simp
    ultimately show "children (?ns4 ! n) = children (?ns ! n)"
      using old2[OF n] by (simp add: bumped_fields)
  qed
  show ?thesis
    using it t4 v0 b4 l4 mono kids by simp
qed

subsection \<open>The loop and mcts\<close>

lemma iterations_loop_inv:
  assumes rc: "rules_consistent g"
  shows "tree_ok (nodes w) \<Longrightarrow> board < length (boards w) \<Longrightarrow>
    \<exists>w'. iterations_loop g rnd board sd 0 n w = Some (Inr w')
     \<and> tree_ok (nodes w')
     \<and> visits (nodes w' ! 0) = visits (nodes w ! 0) + n
     \<and> length (boards w') = length (boards w) + n
     \<and> (\<forall>i < length (boards w). boards w' ! i = boards w ! i)
     \<and> length (nodes w) \<le> length (nodes w')
     \<and> (\<forall>m < length (nodes w). visits (nodes w ! m) \<le> visits (nodes w' ! m))
     \<and> (\<forall>m < length (nodes w). children (nodes w ! m) \<noteq> []
            \<longrightarrow> children (nodes w' ! m) = children (nodes w ! m))"
proof (induction n arbitrary: w)
  case 0
  then show ?case by simp
next
  case (Suc n)
  from iteration_step[OF rc Suc.prems, of rnd sd] obtain w1 where w1:
    "iteration g rnd board sd 0 w = Some (Inr w1)"
    "tree_ok (nodes w1)"
    "visits (nodes w1 ! 0) = Suc (visits (nodes w ! 0))"
    "length (boards w1) = Suc (length (boards w))"
    "\<forall>i < length (boards w). boards w1 ! i = boards w ! i"
    "length (nodes w) \<le> length (nodes w1)"
    "\<forall>m < length (nodes w). visits (nodes w ! m) \<le> visits (nodes w1 ! m)"
    "\<forall>m < length (nodes w). children (nodes w ! m) \<noteq> []
            \<longrightarrow> children (nodes w1 ! m) = children (nodes w ! m)"
    by blast
  have b1: "board < length (boards w1)" using w1(4) Suc.prems(2) by simp
  from Suc.IH[OF w1(2) b1] obtain w' where w':
    "iterations_loop g rnd board sd 0 n w1 = Some (Inr w')"
    "tree_ok (nodes w')"
    "visits (nodes w' ! 0) = visits (nodes w1 ! 0) + n"
    "length (boards w') = length (boards w1) + n"
    "\<forall>i < length (boards w1). boards w' ! i = boards w1 ! i"
    "length (nodes w1) \<le> length (nodes w')"
    "\<forall>m < length (nodes w1). visits (nodes w1 ! m) \<le> visits (nodes w' ! m)"
    "\<forall>m < length (nodes w1). children (nodes w1 ! m) \<noteq> []
            \<longrightarrow> children (nodes w' ! m) = children (nodes w1 ! m)"
    by blast
  have "iterations_loop g rnd board sd 0 (Suc n) w = Some (Inr w')"
    using w1(1) w'(1) by simp
  moreover have "visits (nodes w' ! 0) = visits (nodes w ! 0) + Suc n"
    using w1(3) w'(3) by simp
  moreover have "length (boards w') = length (boards w) + Suc n"
    using w1(4) w'(4) by simp
  moreover have "\<forall>i < length (boards w). boards w' ! i = boards w ! i"
    using w1(4,5) w'(5) by simp
  moreover have "length (nodes w) \<le> length (nodes w')"
    using w1(6) w'(6) by simp
  moreover have "\<forall>m < length (nodes w). visits (nodes w ! m) \<le> visits (nodes w' ! m)"
  proof (intro allI impI)
    fix m assume m: "m < length (nodes w)"
    then have "m < length (nodes w1)" using w1(6) by simp
    with w1(7) w'(7) m show "visits (nodes w ! m) \<le> visits (nodes w' ! m)"
      using le_trans by blast
  qed
  moreover have "\<forall>m < length (nodes w). children (nodes w ! m) \<noteq> []
            \<longrightarrow> children (nodes w' ! m) = children (nodes w ! m)"
  proof (intro allI impI)
    fix m assume m: "m < length (nodes w)" "children (nodes w ! m) \<noteq> []"
    then have "m < length (nodes w1)" "children (nodes w1 ! m) = children (nodes w ! m)"
      using w1(6,8) by simp_all
    with w'(8) m(2) show "children (nodes w' ! m) = children (nodes w ! m)" by simp
  qed
  ultimately show ?case using w'(2) by blast
qed

lemma tree_ok_root: "tree_ok [Node None None]"
  by (rule tree_okI, rule shape_okI) (simp_all add: Node_def)

lemma iterations_loop_add:
  "iterations_loop g rnd board sd r (i + j) w
   = (case iterations_loop g rnd board sd r i w of
        None \<Rightarrow> None
      | Some (Inl e) \<Rightarrow> Some (Inl e)
      | Some (Inr w') \<Rightarrow> iterations_loop g rnd board sd r j w')"
  by (induction i arbitrary: w) (auto split: option.splits sum.splits)

lemma mcts_returns:
  fixes g :: "('b, 'm) game"
  assumes rc: "rules_consistent g" and b: "board < length bs"
  shows "\<exists>w. mcts g rnd bs k board N sd = Some (Inr (0, w))
     \<and> iterations_loop g rnd board sd 0 (nat N)
          \<lparr>nodes = [Node None None], boards = bs, draws = k\<rparr> = Some (Inr w)
     \<and> tree_ok (nodes w)
     \<and> visits (nodes w ! 0) = nat N
     \<and> length (boards w) = length bs + nat N
     \<and> (\<forall>i < length bs. boards w ! i = bs ! i)"
proof -
  let ?w0 = "\<lparr>nodes = [Node None None], boards = bs, draws = k\<rparr> :: ('b, 'm) world"
  have "tree_ok (nodes ?w0)" "board < length (boards ?w0)"
    using b by (simp_all add: tree_ok_root)
  from iterations_loop_inv[OF rc this, of rnd sd "nat N"] obtain w where
    "iterations_loop g rnd board sd 0 (nat N) ?w0 = Some (Inr w)"
    "tree_ok (nodes w)"
    "visits (nodes w ! 0) = visits (nodes ?w0 ! 0) + nat N"
    "length (boards w) = length (boards ?w0) + nat N"
    "\<forall>i < length (boards ?w0). boards w ! i = boards ?w0 ! i"
    by blast
  then show ?thesis by (simp add: mcts_def Node_def)
qed

text \<open>What happens to the boards, whatever the rules are.\<close>

lemma expand_frame:
  assumes "expand g rnd tb ns bs k leaf = Inr (ns2, bs2, k2, node)"
  shows "length bs2 = length bs \<and> (\<forall>i. i \<noteq> tb \<longrightarrow> bs2 ! i = bs ! i)"
  using assms
  by (auto simp: expand_def Let_def board_push_other
      split: if_splits sum.splits option.splits prod.splits)

lemma rollout_frame:
  assumes "tb < length bs" "rollout g rnd tb sd bs k d = Inr (bs3, k3)"
  shows "length bs3 = length bs \<and> (\<forall>i. i \<noteq> tb \<longrightarrow> bs3 ! i = bs ! i)"
  using rollout_cases[OF assms(1), of g rnd sd k d] assms(2) by auto

lemma iteration_frame:
  assumes "iteration g rnd board sd r w = Some (Inr w')"
  shows "length (boards w') = Suc (length (boards w))
       \<and> (\<forall>i < length (boards w). boards w' ! i = boards w ! i)"
proof -
  let ?tb = "length (boards w)"
  let ?bs0 = "boards w @ [boards w ! board]"
  from assms obtain leaf bs1 where sel:
    "select g (nodes w) ?tb ?bs0 r = Some (Inr (leaf, bs1))"
    unfolding iteration_def board_copy_eq
    by (auto split: option.splits sum.splits prod.splits)
  from assms sel obtain ns2 bs2 k2 node where ex:
    "expand g rnd ?tb (nodes w) bs1 (draws w) leaf = Inr (ns2, bs2, k2, node)"
    unfolding iteration_def board_copy_eq
    by (auto split: option.splits sum.splits prod.splits)
  from assms sel ex obtain bs3 k3 where ro:
    "rollout g rnd ?tb sd bs2 k2 0 = Inr (bs3, k3)"
    unfolding iteration_def board_copy_eq
    by (auto split: option.splits sum.splits prod.splits)
  from assms sel ex ro have w': "boards w' = bs3"
    unfolding iteration_def board_copy_eq
    by (auto split: option.splits sum.splits prod.splits)
  from select_sound[OF sel] have f1: "length bs1 = Suc ?tb" "\<forall>i. i \<noteq> ?tb \<longrightarrow> bs1 ! i = ?bs0 ! i"
    by simp_all
  from expand_frame[OF ex] have f2: "length bs2 = length bs1" "\<forall>i. i \<noteq> ?tb \<longrightarrow> bs2 ! i = bs1 ! i"
    by simp_all
  have "?tb < length bs2" using f1(1) f2(1) by simp
  from rollout_frame[OF this ro]
  have f3: "length bs3 = length bs2" "\<forall>i. i \<noteq> ?tb \<longrightarrow> bs3 ! i = bs2 ! i" by simp_all
  have "\<forall>i < ?tb. bs3 ! i = boards w ! i"
    using f1(2) f2(2) f3(2) by (simp add: nth_append)
  then show ?thesis using w' f1(1) f2(1) f3(1) by simp
qed

lemma iterations_loop_frame:
  "iterations_loop g rnd board sd r n w = Some (Inr w') \<Longrightarrow>
     length (boards w') = length (boards w) + n
   \<and> (\<forall>i < length (boards w). boards w' ! i = boards w ! i)"
proof (induction n arbitrary: w)
  case 0
  then show ?case by simp
next
  case (Suc n)
  from Suc.prems obtain w1 where w1: "iteration g rnd board sd r w = Some (Inr w1)"
    "iterations_loop g rnd board sd r n w1 = Some (Inr w')"
    by (auto split: option.splits sum.splits)
  from iteration_frame[OF w1(1)] Suc.IH[OF w1(2)] show ?case by simp
qed

lemma mcts_frame:
  assumes "mcts g rnd bs k board N sd = Some (Inr (r, w))"
  shows "take (length bs) (boards w) = bs"
proof -
  from assms have "iterations_loop g rnd board sd 0 (nat N)
      \<lparr>nodes = [Node None None], boards = bs, draws = k\<rparr> = Some (Inr w)"
    by (auto simp: mcts_def split: option.splits sum.splits)
  from iterations_loop_frame[OF this]
  have "length bs \<le> length (boards w)" "\<forall>i < length bs. boards w ! i = bs ! i" by simp_all
  then show ?thesis by (intro nth_equalityI) simp_all
qed

text \<open>A pass on a board where the game is over.\<close>

lemma iteration_terminal:
  assumes over: "is_game_over g (boards w ! board)"
    and one: "nodes w = [nd]" "children nd = []" "parent nd = None"
  shows "iteration g rnd board sd 0 w
     = Some (Inr \<lparr>nodes = [bump (signed g (boards w ! board) (score_of g (boards w ! board))) nd],
                   boards = boards w @ [boards w ! board], draws = draws w\<rparr>)"
proof -
  let ?tb = "length (boards w)"
  let ?bs0 = "boards w @ [boards w ! board]"
  let ?b = "boards w ! board"
  have b0: "?bs0 ! ?tb = ?b" by simp
  have sel: "select g (nodes w) ?tb ?bs0 0 = Some (Inr (0, ?bs0))"
    by (subst select.simps) (simp add: one)
  have ex: "expand g rnd ?tb (nodes w) ?bs0 (draws w) 0 = Inr (nodes w, ?bs0, draws w, 0)"
    using over by (simp add: expand_def)
  have ro: "rollout g rnd ?tb sd ?bs0 (draws w) 0 = Inr (?bs0, draws w)"
    by (subst rollout.simps) (simp add: over)
  have bp: "backpropagate g ?b (score_of g ?b) [nd] (Some 0)
      = Some [bump (signed g ?b (score_of g ?b)) nd]"
    by (simp add: backpropagate_Some one)
  show ?thesis
    unfolding iteration_def board_copy_eq using sel ex ro bp b0 by (simp add: one)
qed

lemma iterations_loop_terminal:
  assumes over: "is_game_over g (boards w ! board)" and b: "board < length (boards w)"
  shows "nodes w = [nd] \<Longrightarrow> children nd = [] \<Longrightarrow> parent nd = None \<Longrightarrow>
    \<exists>nd'. iterations_loop g rnd board sd 0 n w
        = Some (Inr \<lparr>nodes = [nd'],
                      boards = boards w @ replicate n (boards w ! board), draws = draws w\<rparr>)
      \<and> children nd' = [] \<and> parent nd' = None \<and> visits nd' = visits nd + n"
  using over b
proof (induction n arbitrary: w nd)
  case 0
  then show ?case by (cases w) auto
next
  case (Suc n)
  let ?b = "boards w ! board"
  let ?w1 = "\<lparr>nodes = [bump (signed g ?b (score_of g ?b)) nd],
                   boards = boards w @ [?b], draws = draws w\<rparr> :: ('a, 'b) world"
  have it: "iteration g rnd board sd 0 w = Some (Inr ?w1)"
    by (rule iteration_terminal[OF Suc.prems(4) Suc.prems(1,2,3)])
  have b1: "boards ?w1 ! board = ?b" using Suc.prems(5) by (simp add: nth_append)
  have "\<exists>nd'. iterations_loop g rnd board sd 0 n ?w1
        = Some (Inr \<lparr>nodes = [nd'],
                      boards = boards ?w1 @ replicate n (boards ?w1 ! board), draws = draws ?w1\<rparr>)
      \<and> children nd' = [] \<and> parent nd' = None
      \<and> visits nd' = visits (bump (signed g ?b (score_of g ?b)) nd) + n"
    by (rule Suc.IH) (use Suc.prems b1 in simp_all)
  then obtain nd' where nd':
    "iterations_loop g rnd board sd 0 n ?w1
        = Some (Inr \<lparr>nodes = [nd'],
                      boards = boards ?w1 @ replicate n (boards ?w1 ! board), draws = draws ?w1\<rparr>)"
    "children nd' = []" "parent nd' = None"
    "visits nd' = visits (bump (signed g ?b (score_of g ?b)) nd) + n"
    by blast
  have "iterations_loop g rnd board sd 0 (Suc n) w
        = Some (Inr \<lparr>nodes = [nd'],
                      boards = boards w @ replicate (Suc n) ?b, draws = draws w\<rparr>)"
    using it nd'(1) b1 by (simp add: replicate_app_Cons_same)
  then show ?case using nd'(2,3,4) by simp
qed

lemma rules_consistent_pile_game: "rules_consistent pile_game"
  by (simp add: rules_consistent_def pile_game_def pile_moves_def)

lemma backpropagate_visits:
  assumes "parents_before ns" "n < length ns"
  shows "\<exists>ns'. backpropagate g b s ns (Some n) = Some ns' \<and> length ns' = length ns
     \<and> (\<forall>i < length ns. visits (ns' ! i)
            = (if i \<in> set (path_to_root ns n) then Suc (visits (ns ! i)) else visits (ns ! i)))"
  using backpropagate_eq[OF assms, of g b s] by (simp add: bumped_fields)

text \<open>
  C2. The loop makes exactly \<open>iterations\<close> passes (1000 by default), each pass copies
  the board once and its backpropagation adds one visit to every node from the starting
  node up to the root, the root included; after \<open>mcts\<close> the visits of the root are the
  number of iterations.
\<close>

theorem mcts_root_visits_iterations:
  fixes g :: "('b, 'm) game"
  assumes "rules_consistent g" and "board < length bs" and "0 \<le> N"
  shows "(\<exists>w. mcts g rnd bs k board N sd = Some (Inr (0, w))
            \<and> int (visits (nodes w ! 0)) = N
            \<and> int (length (boards w)) = int (length bs) + N)
       \<and> (\<exists>w. mcts_default g rnd bs k board = Some (Inr (0, w))
            \<and> visits (nodes w ! 0) = 1000)
       \<and> (\<forall>(ns :: 'm nodes) n b s. parents_before ns \<and> n < length ns \<longrightarrow>
            (\<exists>ns'. backpropagate g b s ns (Some n) = Some ns' \<and> length ns' = length ns
               \<and> (\<forall>i < length ns. visits (ns' ! i)
                     = (if i \<in> set (path_to_root ns n) then Suc (visits (ns ! i))
                        else visits (ns ! i)))))
       \<and> (\<forall>(ns :: 'm nodes) n. shape_ok ns \<and> n < length ns \<longrightarrow> 0 \<in> set (path_to_root ns n))"
proof -
  from mcts_returns[OF assms(1,2), of rnd k N sd] assms(3)
  have a: "\<exists>w. mcts g rnd bs k board N sd = Some (Inr (0, w))
            \<and> int (visits (nodes w ! 0)) = N
            \<and> int (length (boards w)) = int (length bs) + N"
    by auto
  from mcts_returns[OF assms(1,2), of rnd k 1000 20]
  have b: "\<exists>w. mcts_default g rnd bs k board = Some (Inr (0, w))
            \<and> visits (nodes w ! 0) = 1000"
    by (auto simp: mcts_default_def)
  show ?thesis
    using a b backpropagate_visits[of _ _ g] root_on_path by blast
qed

theorem mcts_root_visits_iterations_witness:
  "rules_consistent pile_game \<and> (0::nat) < length [(2::nat, True)] \<and> (0::int) \<le> 2
   \<and> (\<exists>w. mcts pile_game (\<lambda>_. 0) [(2, True)] 0 0 2 20 = Some (Inr (0, w))
          \<and> int (visits (nodes w ! 0)) = 2)"
  using mcts_root_visits_iterations [of pile_game 0 "[(2, True)]" 2 "\<lambda>_. 0" 0 20]
    rules_consistent_pile_game
  by auto

text \<open>
  C9. \<open>mcts\<close> works on copies: whenever it returns, the boards that existed before the
  call, the one handed to it among them, are what they were; and it does return when the
  rules are consistent.
\<close>

theorem mcts_input_board_unchanged:
  fixes g :: "('b, 'm) game"
  assumes "board < length bs"
  shows "(\<forall>r w. mcts g rnd bs k board N sd = Some (Inr (r, w))
            \<longrightarrow> take (length bs) (boards w) = bs \<and> boards w ! board = bs ! board)
       \<and> (rules_consistent g \<longrightarrow> (\<exists>w. mcts g rnd bs k board N sd = Some (Inr (0, w))))"
proof -
  have "take (length bs) (boards w) = bs \<and> boards w ! board = bs ! board"
    if "mcts g rnd bs k board N sd = Some (Inr (r, w))" for r w
  proof -
    from mcts_frame[OF that] have t: "take (length bs) (boards w) = bs" .
    have "boards w ! board = take (length bs) (boards w) ! board"
      using assms by simp
    then show ?thesis using t by simp
  qed
  moreover have "\<exists>w. mcts g rnd bs k board N sd = Some (Inr (0, w))" if "rules_consistent g"
    using mcts_returns[OF that assms, of rnd k N sd] by blast
  ultimately show ?thesis by blast
qed

theorem mcts_input_board_unchanged_witness:
  "(0::nat) < length [(2::nat, True)] \<and> rules_consistent pile_game
   \<and> (\<exists>w. mcts pile_game (\<lambda>_. 0) [(2, True)] 0 0 2 20 = Some (Inr (0, w))
          \<and> boards w ! 0 = (2, True))"
  using mcts_input_board_unchanged [of 0 "[(2, True)]" pile_game "\<lambda>_. 0" 0 2 20]
    rules_consistent_pile_game
  by auto

text \<open>
  C4. On a board where the game is over, \<open>mcts\<close> returns a root without children, the only
  node there is; no random choice is made (the count of draws is what it was) and no move
  is pushed (every copy of the board equals the board).
\<close>

theorem mcts_terminal_board:
  fixes g :: "('b, 'm) game"
  assumes "board < length bs" and "is_game_over g (bs ! board)"
  shows "\<exists>nd. mcts g rnd bs k board N sd
          = Some (Inr (0, \<lparr>nodes = [nd],
                             boards = bs @ replicate (nat N) (bs ! board), draws = k\<rparr>))
       \<and> children nd = [] \<and> visits nd = nat N"
proof -
  let ?w0 = "\<lparr>nodes = [Node None None], boards = bs, draws = k\<rparr> :: ('b, 'm) world"
  have "\<exists>nd'. iterations_loop g rnd board sd 0 (nat N) ?w0
        = Some (Inr \<lparr>nodes = [nd'],
                      boards = boards ?w0 @ replicate (nat N) (boards ?w0 ! board),
                      draws = draws ?w0\<rparr>)
      \<and> children nd' = [] \<and> parent nd' = None \<and> visits nd' = visits (Node None None) + nat N"
    using iterations_loop_terminal[of g ?w0 board "Node None None" rnd sd "nat N"] assms
    by (simp add: Node_def)
  then show ?thesis by (auto simp: mcts_def Node_def)
qed

theorem mcts_terminal_board_witness:
  "(0::nat) < length [(0::nat, True)] \<and> is_game_over pile_game ([(0, True)] ! 0)
   \<and> (\<exists>nd. mcts pile_game (\<lambda>_. 0) [(0, True)] 7 0 3 20
          = Some (Inr (0, \<lparr>nodes = [nd],
                             boards = [(0, True), (0, True), (0, True), (0, True)],
                             draws = 7\<rparr>))
        \<and> children nd = [] \<and> visits nd = 3)"
  using mcts_terminal_board [of 0 "[(0, True)]" pile_game "\<lambda>_. 0" 7 3 20]
  by (simp add: pile_game_def eval_nat_numeral)

text \<open>
  C6. A node is expanded at most once: the children a node has after \<open>i\<close> passes are its
  children after any further passes, and no node lists a child twice.
\<close>

theorem mcts_expands_once:
  fixes g :: "('b, 'm) game"
  assumes "rules_consistent g" and "board < length bs"
  shows "\<exists>wi wj. mcts g rnd bs k board (int i) sd = Some (Inr (0, wi))
       \<and> mcts g rnd bs k board (int (i + j)) sd = Some (Inr (0, wj))
       \<and> length (nodes wi) \<le> length (nodes wj)
       \<and> (\<forall>n < length (nodes wi). children (nodes wi ! n) \<noteq> []
              \<longrightarrow> children (nodes wj ! n) = children (nodes wi ! n))
       \<and> (\<forall>n < length (nodes wj). distinct (children (nodes wj ! n)))"
proof -
  let ?w0 = "\<lparr>nodes = [Node None None], boards = bs, draws = k\<rparr> :: ('b, 'm) world"
  from mcts_returns[OF assms, of rnd k "int i" sd] obtain wi where wi:
    "mcts g rnd bs k board (int i) sd = Some (Inr (0, wi))"
    "iterations_loop g rnd board sd 0 i ?w0 = Some (Inr wi)"
    "tree_ok (nodes wi)" "length (boards wi) = length bs + i"
    by auto
  have bi: "board < length (boards wi)" using wi(4) assms(2) by simp
  from iterations_loop_inv[OF assms(1) wi(3) bi, of rnd sd j] obtain wj where wj:
    "iterations_loop g rnd board sd 0 j wi = Some (Inr wj)"
    "tree_ok (nodes wj)"
    "length (nodes wi) \<le> length (nodes wj)"
    "\<forall>m < length (nodes wi). children (nodes wi ! m) \<noteq> []
            \<longrightarrow> children (nodes wj ! m) = children (nodes wi ! m)"
    by blast
  have "iterations_loop g rnd board sd 0 (i + j) ?w0 = Some (Inr wj)"
    using wi(2) wj(1) by (simp add: iterations_loop_add)
  moreover have "nat (int (i + j)) = i + j" by (rule nat_int)
  ultimately have "mcts g rnd bs k board (int (i + j)) sd = Some (Inr (0, wj))"
    unfolding mcts_def by (simp only: option.case sum.case)
  moreover have "\<forall>n < length (nodes wj). distinct (children (nodes wj ! n))"
    using shape_okD(5)[OF tree_okD(1)[OF wj(2)]] by blast
  ultimately show ?thesis using wi(1) wj(3,4) by blast
qed

theorem mcts_expands_once_witness:
  "rules_consistent pile_game \<and> (0::nat) < length [(2::nat, True)]
   \<and> (\<exists>wi wj. mcts pile_game (\<lambda>_. 0) [(2, True)] 0 0 (int 1) 20 = Some (Inr (0, wi))
       \<and> mcts pile_game (\<lambda>_. 0) [(2, True)] 0 0 (int (1 + 2)) 20 = Some (Inr (0, wj))
       \<and> length (nodes wi) \<le> length (nodes wj))"
  using mcts_expands_once [of pile_game 0 "[(2, True)]" "\<lambda>_. 0" 0 1 20 2]
    rules_consistent_pile_game
  by auto

subsection \<open>Every child of the root is visited\<close>

lemma select_unvisited:
  assumes t: "tree_ok ns" and u: "u \<in> set (children (ns ! 0))" "visits (ns ! u) = 0"
  shows "\<exists>v m. v \<in> set (children (ns ! 0)) \<and> visits (ns ! v) = 0
           \<and> select g ns tb bs 0 = Some (Inr (v, board_push g bs tb m))"
proof -
  have s: "shape_ok ns" by (rule tree_okD(1)[OF t])
  have root: "0 < length ns" using shape_okD(1)[OF s] by simp
  have ne: "children (ns ! 0) \<noteq> []" using u(1) by auto
  have vis: "0 < visits (ns ! 0)" by (rule tree_okD(2)[OF t root ne])
  have keys: "\<forall>c\<in>set (children (ns ! 0)). \<exists>k. ucb1 ns c (14 / 10) = Inr k"
  proof
    fix c assume "c \<in> set (children (ns ! 0))"
    with shape_okD(4)[OF s root] have "parent (ns ! c) = Some 0" by blast
    with vis show "\<exists>k. ucb1 ns c (14 / 10) = Inr k"
      using ucb1_child_ok[of ns c 0] by simp
  qed
  from best_child_Inr[OF ne keys] obtain v where v:
    "best_child ns 0 = Inr v" "v \<in> set (children (ns ! 0))" by blast
  have v0: "visits (ns ! v) = 0" by (rule best_child_prefers_unvisited[OF v(1) u])
  from shape_okD(4)[OF s root v(2)] obtain m where m:
    "v < length ns" "move (ns ! v) = Some m" by auto
  have leaf: "children (ns ! v) = []"
    using tree_okD(2)[OF t m(1)] v0 by auto
  have "select g ns tb bs 0 = select g ns tb (board_push g bs tb m) v"
    by (subst select.simps) (simp add: ne v(1) m(2))
  also have "\<dots> = Some (Inr (v, board_push g bs tb m))"
    by (subst select.simps) (simp add: leaf)
  finally show ?thesis using v(2) v0 by blast
qed

lemma filter_length_mono:
  "(\<forall>x\<in>set xs. Q x \<longrightarrow> P x) \<Longrightarrow> length (filter Q xs) \<le> length (filter P xs)"
  by (induction xs) auto

lemma filter_length_less:
  "(\<forall>x\<in>set xs. Q x \<longrightarrow> P x) \<Longrightarrow> v \<in> set xs \<Longrightarrow> P v \<Longrightarrow> \<not> Q v
   \<Longrightarrow> length (filter Q xs) < length (filter P xs)"
proof (induction xs)
  case Nil
  then show ?case by simp
next
  case (Cons x xs)
  have mono: "length (filter Q xs) \<le> length (filter P xs)"
    using Cons.prems(1) by (intro filter_length_mono) simp
  show ?case
  proof (cases "x = v")
    case True
    then show ?thesis using Cons.prems(3,4) mono by simp
  next
    case False
    with Cons.prems have "length (filter Q xs) < length (filter P xs)"
      by (intro Cons.IH) simp_all
    then show ?thesis using Cons.prems(1) by auto
  qed
qed

lemma iteration_unvisited:
  assumes rc: "rules_consistent g" and t: "tree_ok (nodes w)" and b: "board < length (boards w)"
    and ne: "children (nodes w ! 0) \<noteq> []"
  shows "\<exists>w'. iteration g rnd board sd 0 w = Some (Inr w')
     \<and> tree_ok (nodes w') \<and> length (boards w') = Suc (length (boards w))
     \<and> children (nodes w' ! 0) = children (nodes w ! 0)
     \<and> unvisited (nodes w') \<le> unvisited (nodes w) - 1"
proof -
  let ?ns = "nodes w"
  let ?tb = "length (boards w)"
  have s: "shape_ok ?ns" by (rule tree_okD(1)[OF t])
  have root: "0 < length ?ns" using shape_okD(1)[OF s] by simp
  from iteration_step[OF rc t b, of rnd sd] obtain w' where w':
    "iteration g rnd board sd 0 w = Some (Inr w')"
    "tree_ok (nodes w')"
    "length (boards w') = Suc (length (boards w))"
    "\<forall>n < length ?ns. visits (?ns ! n) \<le> visits (nodes w' ! n)"
    "\<forall>n < length ?ns. children (?ns ! n) \<noteq> []
            \<longrightarrow> children (nodes w' ! n) = children (?ns ! n)"
    by blast
  have kids: "children (nodes w' ! 0) = children (?ns ! 0)"
    using w'(5) root ne by blast
  have inb: "c < length ?ns" if "c \<in> set (children (?ns ! 0))" for c
    using shape_okD(4)[OF s root that] by simp
  have sub: "\<forall>c\<in>set (children (?ns ! 0)). visits (nodes w' ! c) = 0 \<longrightarrow> visits (?ns ! c) = 0"
  proof (intro ballI impI)
    fix c assume c: "c \<in> set (children (?ns ! 0))" "visits (nodes w' ! c) = 0"
    from w'(4) inb[OF c(1)] have "visits (?ns ! c) \<le> visits (nodes w' ! c)" by blast
    with c(2) show "visits (?ns ! c) = 0" by simp
  qed
  have "unvisited (nodes w') \<le> unvisited ?ns - 1"
  proof (cases "\<exists>u\<in>set (children (?ns ! 0)). visits (?ns ! u) = 0")
    case False
    then have "unvisited (nodes w') \<le> unvisited ?ns"
      unfolding unvisited_def kids using sub by (intro filter_length_mono) blast
    moreover have "unvisited ?ns = 0"
      using False by (auto simp: unvisited_def filter_empty_conv)
    ultimately show ?thesis by simp
  next
    case True
    then obtain u where u: "u \<in> set (children (?ns ! 0))" "visits (?ns ! u) = 0" by blast
    from select_unvisited[OF t u, of g ?tb "boards w @ [boards w ! board]"]
    obtain v m where v: "v \<in> set (children (?ns ! 0))" "visits (?ns ! v) = 0"
      "select g ?ns ?tb (boards w @ [boards w ! board]) 0
         = Some (Inr (v, board_push g (boards w @ [boards w ! board]) ?tb m))"
      by blast
    from iteration_result[OF rc t b, of rnd sd]
    obtain leaf bs1 ns2 bs2 k2 node ms where r:
      "select g ?ns ?tb (boards w @ [boards w ! board]) 0 = Some (Inr (leaf, bs1))"
      "node < length ns2" "leaf \<in> set (path_to_root ns2 node)"
      "iteration g rnd board sd 0 w
        = Some (Inr \<lparr>nodes = bumped ns2
                               (signed g (play g (bs2 ! ?tb) ms) (score_of g (play g (bs2 ! ?tb) ms)))
                               (path_to_root ns2 node),
                      boards = bs2[?tb := play g (bs2 ! ?tb) ms],
                      draws = k2 + length ms\<rparr>)"
      by blast
    from r(1) v(3) have lv: "leaf = v" by simp
    have "leaf \<le> node" using path_to_root_le[OF r(3)] .
    then have l2: "leaf < length ns2" using r(2) by simp
    from r(4) w'(1) have "nodes w' = bumped ns2
                               (signed g (play g (bs2 ! ?tb) ms) (score_of g (play g (bs2 ! ?tb) ms)))
                               (path_to_root ns2 node)"
      by simp
    then have "0 < visits (nodes w' ! v)"
      using r(3) l2 lv by (simp add: bumped_fields)
    then have "unvisited (nodes w') < unvisited ?ns"
      unfolding unvisited_def kids using sub v(1,2)
      by (intro filter_length_less[where v = v]) simp_all
    then show ?thesis by simp
  qed
  with w'(1,2,3) kids show ?thesis by blast
qed

lemma iterations_loop_unvisited:
  assumes rc: "rules_consistent g"
  shows "tree_ok (nodes w) \<Longrightarrow> board < length (boards w) \<Longrightarrow> children (nodes w ! 0) \<noteq> [] \<Longrightarrow>
    \<exists>w'. iterations_loop g rnd board sd 0 n w = Some (Inr w')
     \<and> tree_ok (nodes w')
     \<and> children (nodes w' ! 0) = children (nodes w ! 0)
     \<and> unvisited (nodes w') \<le> unvisited (nodes w) - n"
proof (induction n arbitrary: w)
  case 0
  then show ?case by simp
next
  case (Suc n)
  from iteration_unvisited[OF rc Suc.prems, of rnd sd] obtain w1 where w1:
    "iteration g rnd board sd 0 w = Some (Inr w1)"
    "tree_ok (nodes w1)" "length (boards w1) = Suc (length (boards w))"
    "children (nodes w1 ! 0) = children (nodes w ! 0)"
    "unvisited (nodes w1) \<le> unvisited (nodes w) - 1"
    by blast
  have b1: "board < length (boards w1)" using w1(3) Suc.prems(2) by simp
  have ne1: "children (nodes w1 ! 0) \<noteq> []" using w1(4) Suc.prems(3) by simp
  from Suc.IH[OF w1(2) b1 ne1] obtain w' where w':
    "iterations_loop g rnd board sd 0 n w1 = Some (Inr w')"
    "tree_ok (nodes w')"
    "children (nodes w' ! 0) = children (nodes w1 ! 0)"
    "unvisited (nodes w') \<le> unvisited (nodes w1) - n"
    by blast
  have "iterations_loop g rnd board sd 0 (Suc n) w = Some (Inr w')"
    using w1(1) w'(1) by simp
  moreover have "unvisited (nodes w') \<le> unvisited (nodes w) - Suc n"
    using w1(5) w'(4) by simp
  ultimately show ?case using w'(2,3) w1(4) by simp
qed

lemma iteration_first:
  assumes rc: "rules_consistent g" and t: "tree_ok (nodes w)" and b: "board < length (boards w)"
    and e: "children (nodes w ! 0) = []" and open_game: "\<not> is_game_over g (boards w ! board)"
  shows "\<exists>w'. iteration g rnd board sd 0 w = Some (Inr w')
     \<and> tree_ok (nodes w') \<and> length (boards w') = Suc (length (boards w))
     \<and> children (nodes w' ! 0)
         = [length (nodes w) ..< length (nodes w) + length (legal_moves g (boards w ! board))]
     \<and> legal_moves g (boards w ! board) \<noteq> []
     \<and> unvisited (nodes w') \<le> length (legal_moves g (boards w ! board)) - 1"
proof -
  let ?ns = "nodes w"
  let ?tb = "length (boards w)"
  let ?bs0 = "boards w @ [boards w ! board]"
  let ?ms = "legal_moves g (boards w ! board)"
  have s: "shape_ok ?ns" by (rule tree_okD(1)[OF t])
  have root: "0 < length ?ns" using shape_okD(1)[OF s] by simp
  from iteration_step[OF rc t b, of rnd sd] obtain w' where w':
    "iteration g rnd board sd 0 w = Some (Inr w')"
    "tree_ok (nodes w')"
    "length (boards w') = Suc (length (boards w))"
    by blast
  have sel0: "select g ?ns ?tb ?bs0 0 = Some (Inr (0, ?bs0))"
    by (subst select.simps) (simp add: e)
  from iteration_result[OF rc t b, of rnd sd]
  obtain leaf bs1 ns2 bs2 k2 node ms where r:
    "select g ?ns ?tb ?bs0 0 = Some (Inr (leaf, bs1))"
    "(is_game_over g (bs1 ! ?tb) \<and> ns2 = ?ns \<and> bs2 = bs1 \<and> k2 = draws w \<and> node = leaf)
       \<or> (\<not> is_game_over g (bs1 ! ?tb)
          \<and> legal_moves g (bs1 ! ?tb) \<noteq> []
          \<and> ns2 = add_children ?ns leaf (legal_moves g (bs1 ! ?tb))
          \<and> node = length ?ns + rnd (draws w) mod length (legal_moves g (bs1 ! ?tb))
          \<and> bs2 = board_push g bs1 ?tb
                    (legal_moves g (bs1 ! ?tb)
                       ! (rnd (draws w) mod length (legal_moves g (bs1 ! ?tb))))
          \<and> k2 = Suc (draws w))"
    "node < length ns2"
    "iteration g rnd board sd 0 w
        = Some (Inr \<lparr>nodes = bumped ns2
                               (signed g (play g (bs2 ! ?tb) ms) (score_of g (play g (bs2 ! ?tb) ms)))
                               (path_to_root ns2 node),
                      boards = bs2[?tb := play g (bs2 ! ?tb) ms],
                      draws = k2 + length ms\<rparr>)"
    by blast
  from r(1) sel0 have l0: "leaf = 0" "bs1 = ?bs0" by simp_all
  have at: "bs1 ! ?tb = boards w ! board" using l0(2) by simp
  from r(2) open_game have x: "?ms \<noteq> []" "ns2 = add_children ?ns 0 ?ms"
    "node = length ?ns + rnd (draws w) mod length ?ms"
    unfolding at l0(1) by auto
  have j: "rnd (draws w) mod length ?ms < length ?ms" using x(1) by simp
  have ch2: "children (ns2 ! 0) = [length ?ns ..< length ?ns + length ?ms]"
    unfolding x(2) using e by (simp add: add_children_facts(3)[OF root])
  have len2: "length ns2 = length ?ns + length ?ms"
    unfolding x(2) by (rule add_children_facts(1)[OF root])
  have n4: "nodes w' = bumped ns2
                (signed g (play g (bs2 ! ?tb) ms) (score_of g (play g (bs2 ! ?tb) ms)))
                (path_to_root ns2 node)"
    using r(4) w'(1) by simp
  have root2: "0 < length ns2" using len2 root by simp
  have kids: "children (nodes w' ! 0) = [length ?ns ..< length ?ns + length ?ms]"
    unfolding n4 using ch2 root2 by (simp add: bumped_fields)
  have nin: "node \<in> set (children (nodes w' ! 0))"
    unfolding kids x(3) using j by simp
  have nv: "0 < visits (nodes w' ! node)"
    unfolding n4 using r(3) by (simp add: bumped_fields path_to_root_self)
  have "length (filter (\<lambda>c. visits (nodes w' ! c) = 0) (children (nodes w' ! 0)))
      < length (filter (\<lambda>c. True) (children (nodes w' ! 0)))"
    using nin nv by (intro filter_length_less[where v = node]) simp_all
  then have "unvisited (nodes w') < length ?ms"
    unfolding unvisited_def kids by simp
  then have "unvisited (nodes w') \<le> length ?ms - 1" by simp
  with w' kids x(1) show ?thesis by blast
qed

lemma unvisited_zero:
  "unvisited ns = 0 \<Longrightarrow> c \<in> set (children (ns ! 0)) \<Longrightarrow> 0 < visits (ns ! c)"
  by (auto simp: unvisited_def filter_empty_conv)

lemma mcts_children_visited:
  fixes g :: "('b, 'm) game"
  assumes rc: "rules_consistent g" and b: "board < length bs"
    and open_game: "\<not> is_game_over g (bs ! board)"
    and enough: "int (length (legal_moves g (bs ! board))) \<le> N"
  shows "\<exists>w. mcts g rnd bs k board N sd = Some (Inr (0, w))
     \<and> tree_ok (nodes w)
     \<and> children (nodes w ! 0) = [1 ..< 1 + length (legal_moves g (bs ! board))]
     \<and> (\<forall>c\<in>set (children (nodes w ! 0)). 0 < visits (nodes w ! c))"
proof -
  let ?w0 = "\<lparr>nodes = [Node None None], boards = bs, draws = k\<rparr> :: ('b, 'm) world"
  let ?L = "length (legal_moves g (bs ! board))"
  have t0: "tree_ok (nodes ?w0)" by (simp add: tree_ok_root)
  have b0: "board < length (boards ?w0)" using b by simp
  have e0: "children (nodes ?w0 ! 0) = []" by (simp add: Node_def)
  have o0: "\<not> is_game_over g (boards ?w0 ! board)" using open_game by simp
  from iteration_first[OF rc t0 b0 e0 o0, of rnd sd] obtain w1 where w1:
    "iteration g rnd board sd 0 ?w0 = Some (Inr w1)"
    "tree_ok (nodes w1)" "length (boards w1) = Suc (length bs)"
    "children (nodes w1 ! 0) = [1 ..< 1 + ?L]"
    "legal_moves g (bs ! board) \<noteq> []"
    "unvisited (nodes w1) \<le> ?L - 1"
    by auto
  have Lpos: "0 < ?L" using w1(5) by simp
  have "?L \<le> nat N" using enough by linarith
  with Lpos obtain n where n: "nat N = Suc n" "?L - 1 \<le> n"
    by (cases "nat N") simp_all
  have b1: "board < length (boards w1)" using w1(3) b by simp
  have ne1: "children (nodes w1 ! 0) \<noteq> []" using w1(4) Lpos by simp
  from iterations_loop_unvisited[OF rc w1(2) b1 ne1, of rnd sd n] obtain w where w:
    "iterations_loop g rnd board sd 0 n w1 = Some (Inr w)"
    "tree_ok (nodes w)"
    "children (nodes w ! 0) = children (nodes w1 ! 0)"
    "unvisited (nodes w) \<le> unvisited (nodes w1) - n"
    by blast
  have "iterations_loop g rnd board sd 0 (nat N) ?w0 = Some (Inr w)"
    unfolding n(1) using w1(1) w(1) by simp
  then have m: "mcts g rnd bs k board N sd = Some (Inr (0, w))"
    by (simp add: mcts_def)
  have "unvisited (nodes w) = 0" using w(4) w1(6) n(2) by simp
  then have "\<forall>c\<in>set (children (nodes w ! 0)). 0 < visits (nodes w ! c)"
    using unvisited_zero by blast
  with m w(2,3) w1(4) show ?thesis by simp
qed

lemma set_get_top_moves: "0 \<le> n \<Longrightarrow> set (get_top_moves ns node n) \<subseteq> set (children (ns ! node))"
proof -
  assume "0 \<le> n"
  then have "set (get_top_moves ns node n)
      \<subseteq> set (sorted_desc (\<lambda>c. visits (ns ! c)) (children (ns ! node)))"
    by (simp add: top_moves_general set_take_subset)
  also have "\<dots> = set (children (ns ! node))"
    using mset_sorted_desc[of "\<lambda>c. visits (ns ! c)" "children (ns ! node)"]
    by (rule mset_eq_setD)
  finally show ?thesis .
qed

text \<open>
  C10. When the game on the board is not over and the iterations are at least the number
  \<open>L\<close> of legal moves, \<open>mcts\<close> returns a root with \<open>L\<close> children each visited at least
  once, so that \<open>wins / visits\<close> of a ranked child does not divide by zero.
\<close>

theorem mcts_root_children_visited:
  fixes g :: "('b, 'm) game"
  assumes "rules_consistent g" and "board < length bs"
    and "\<not> is_game_over g (bs ! board)"
    and "int (length (legal_moves g (bs ! board))) \<le> N"
  shows "\<exists>w. mcts g rnd bs k board N sd = Some (Inr (0, w))
     \<and> length (children (nodes w ! 0)) = length (legal_moves g (bs ! board))
     \<and> (\<forall>c\<in>set (children (nodes w ! 0)). 1 \<le> visits (nodes w ! c))
     \<and> (\<forall>c\<in>set (get_top_moves (nodes w) 0 3).
           py_div (wins (nodes w ! c)) (real (visits (nodes w ! c)))
             = Inr (wins (nodes w ! c) / real (visits (nodes w ! c))))"
proof -
  from mcts_children_visited[OF assms, of rnd k sd] obtain w where w:
    "mcts g rnd bs k board N sd = Some (Inr (0, w))"
    "children (nodes w ! 0) = [1 ..< 1 + length (legal_moves g (bs ! board))]"
    "\<forall>c\<in>set (children (nodes w ! 0)). 0 < visits (nodes w ! c)"
    by blast
  have len: "length (children (nodes w ! 0)) = length (legal_moves g (bs ! board))"
    unfolding w(2) by (simp del: upt_Suc)
  have v: "\<forall>c\<in>set (children (nodes w ! 0)). 1 \<le> visits (nodes w ! c)"
    using w(3) by (simp add: Suc_le_eq)
  have d: "\<forall>c\<in>set (get_top_moves (nodes w) 0 3).
           py_div (wins (nodes w ! c)) (real (visits (nodes w ! c)))
             = Inr (wins (nodes w ! c) / real (visits (nodes w ! c)))"
  proof
    fix c assume "c \<in> set (get_top_moves (nodes w) 0 3)"
    with set_get_top_moves[of 3 "nodes w" 0] have "c \<in> set (children (nodes w ! 0))" by auto
    with w(3) have "0 < visits (nodes w ! c)" by blast
    then show "py_div (wins (nodes w ! c)) (real (visits (nodes w ! c)))
             = Inr (wins (nodes w ! c) / real (visits (nodes w ! c)))"
      by (simp add: py_div_def)
  qed
  show ?thesis using w(1) len v d by blast
qed

theorem mcts_root_children_visited_witness:
  "rules_consistent pile_game \<and> (0::nat) < length [(2::nat, True)]
   \<and> \<not> is_game_over pile_game ([(2, True)] ! 0)
   \<and> int (length (legal_moves pile_game ([(2, True)] ! 0))) \<le> 2
   \<and> (\<exists>w. mcts pile_game (\<lambda>_. 0) [(2, True)] 0 0 2 20 = Some (Inr (0, w))
          \<and> length (children (nodes w ! 0)) = 2)"
proof -
  have rc: "rules_consistent pile_game" by (rule rules_consistent_pile_game)
  have b: "(0::nat) < length [(2::nat, True)]" by simp
  have o: "\<not> is_game_over pile_game ([(2, True)] ! 0)" by (simp add: pile_game_def)
  have l: "int (length (legal_moves pile_game ([(2, True)] ! 0))) \<le> 2"
    by (simp add: pile_game_def pile_moves_def)
  have l2: "length (legal_moves pile_game ([(2, True)] ! 0)) = 2"
    by (simp add: pile_game_def pile_moves_def)
  from mcts_root_children_visited[OF rc b o l, of "\<lambda>_. 0" 0 20] l2
  have "\<exists>w. mcts pile_game (\<lambda>_. 0) [(2, True)] 0 0 2 20 = Some (Inr (0, w))
          \<and> length (children (nodes w ! 0)) = 2"
    by auto
  with rc b o l show ?thesis by blast
qed

subsection \<open>The sign in backpropagation\<close>

lemma mcts_pile_game_one_pass:
  "mcts pile_game (\<lambda>_. 0) [(2, True)] 0 0 1 20
   = Some (Inr (0, \<lparr>nodes =
        [\<lparr>move = None, parent = None, children = [1, 2], wins = - 1, visits = 1\<rparr>,
         \<lparr>move = Some 1, parent = Some 0, children = [], wins = - 1, visits = 1\<rparr>,
         \<lparr>move = Some 2, parent = Some 0, children = [], wins = 0, visits = 0\<rparr>],
        boards = [(2, True), (0, True)], draws = 2\<rparr>))"
  by (simp add: mcts_def iteration_def board_copy_def Node_def select.simps expand_def
      pile_game_def pile_moves_def random_choice_def board_push_def score_of_def
      backpropagate.simps rollout.simps WHITE_def)

lemma first_pass_wins:
  fixes g :: "('b, 'm) game"
  assumes rc: "rules_consistent g" and b: "board < length bs"
    and open_game: "\<not> is_game_over g (bs ! board)"
  shows "\<exists>w c final. mcts g rnd bs k board 1 sd = Some (Inr (0, w))
     \<and> c \<in> set (children (nodes w ! 0)) \<and> parent (nodes w ! c) = Some 0
     \<and> final = boards w ! length bs
     \<and> wins (nodes w ! c) = (if turn g final = WHITE then score_of g final else - score_of g final)
     \<and> wins (nodes w ! 0) = (if turn g final = WHITE then score_of g final else - score_of g final)"
proof -
  let ?w0 = "\<lparr>nodes = [Node None None], boards = bs, draws = k\<rparr> :: ('b, 'm) world"
  let ?tb = "length bs"
  let ?bs0 = "bs @ [bs ! board]"
  let ?ms = "legal_moves g (bs ! board)"
  have t0: "tree_ok (nodes ?w0)" by (simp add: tree_ok_root)
  have b0: "board < length (boards ?w0)" using b by simp
  have sel0: "select g [Node None None] ?tb ?bs0 0 = Some (Inr (0, ?bs0))"
    by (subst select.simps) (simp add: Node_def)
  from iteration_result[OF rc t0 b0, of rnd sd]
  obtain leaf bs1 ns2 bs2 k2 node ms where r0:
    "select g (nodes ?w0) (length (boards ?w0)) (boards ?w0 @ [boards ?w0 ! board]) 0
       = Some (Inr (leaf, bs1))"
    "(is_game_over g (bs1 ! length (boards ?w0))
          \<and> ns2 = nodes ?w0 \<and> bs2 = bs1 \<and> k2 = draws ?w0 \<and> node = leaf)
       \<or> (\<not> is_game_over g (bs1 ! length (boards ?w0))
          \<and> legal_moves g (bs1 ! length (boards ?w0)) \<noteq> []
          \<and> ns2 = add_children (nodes ?w0) leaf (legal_moves g (bs1 ! length (boards ?w0)))
          \<and> node = length (nodes ?w0)
                   + rnd (draws ?w0) mod length (legal_moves g (bs1 ! length (boards ?w0)))
          \<and> bs2 = board_push g bs1 (length (boards ?w0))
                    (legal_moves g (bs1 ! length (boards ?w0))
                       ! (rnd (draws ?w0) mod length (legal_moves g (bs1 ! length (boards ?w0)))))
          \<and> k2 = Suc (draws ?w0))"
    "node < length ns2"
    "iteration g rnd board sd 0 ?w0
        = Some (Inr \<lparr>nodes = bumped ns2
                               (signed g (play g (bs2 ! length (boards ?w0)) ms)
                                  (score_of g (play g (bs2 ! length (boards ?w0)) ms)))
                               (path_to_root ns2 node),
                      boards = bs2[length (boards ?w0) := play g (bs2 ! length (boards ?w0)) ms],
                      draws = k2 + length ms\<rparr>)"
    by blast
  have r: "select g [Node None None] ?tb ?bs0 0 = Some (Inr (leaf, bs1))"
    "(is_game_over g (bs1 ! ?tb) \<and> ns2 = [Node None None] \<and> bs2 = bs1 \<and> k2 = k \<and> node = leaf)
       \<or> (\<not> is_game_over g (bs1 ! ?tb)
          \<and> legal_moves g (bs1 ! ?tb) \<noteq> []
          \<and> ns2 = add_children [Node None None] leaf (legal_moves g (bs1 ! ?tb))
          \<and> node = 1 + rnd k mod length (legal_moves g (bs1 ! ?tb))
          \<and> bs2 = board_push g bs1 ?tb
                    (legal_moves g (bs1 ! ?tb) ! (rnd k mod length (legal_moves g (bs1 ! ?tb))))
          \<and> k2 = Suc k)"
    "node < length ns2"
    "iteration g rnd board sd 0 ?w0
        = Some (Inr \<lparr>nodes = bumped ns2
                               (signed g (play g (bs2 ! ?tb) ms) (score_of g (play g (bs2 ! ?tb) ms)))
                               (path_to_root ns2 node),
                      boards = bs2[?tb := play g (bs2 ! ?tb) ms],
                      draws = k2 + length ms\<rparr>)"
    using r0 by simp_all
  let ?final = "play g (bs2 ! ?tb) ms"
  let ?d = "signed g ?final (score_of g ?final)"
  let ?w = "\<lparr>nodes = bumped ns2 ?d (path_to_root ns2 node),
             boards = bs2[?tb := ?final], draws = k2 + length ms\<rparr> :: ('b, 'm) world"
  from r(1) sel0 have l0: "leaf = 0" "bs1 = ?bs0" by simp_all
  have at: "bs1 ! ?tb = bs ! board" using l0(2) by simp
  from r(2) open_game have x: "?ms \<noteq> []" "ns2 = add_children [Node None None] 0 ?ms"
    "node = 1 + rnd k mod length ?ms" "bs2 = board_push g bs1 ?tb (?ms ! (rnd k mod length ?ms))"
    unfolding at l0(1) by auto
  have j: "rnd k mod length ?ms < length ?ms" using x(1) by simp
  have root: "0 < length [Node None None :: 'm node]" by simp
  have "add_children [Node None None] 0 ?ms ! 0
      = ([Node None None] ! 0)\<lparr>children := children ([Node None None :: 'm node] ! 0)
           @ [length [Node None None :: 'm node]
                ..< length [Node None None :: 'm node] + length ?ms]\<rparr>"
    by (rule add_children_facts(3)[OF root])
  then have ch2: "children (ns2 ! 0) = [1 ..< 1 + length ?ms]"
    unfolding x(2) by (simp add: Node_def del: upt_Suc)
  have par: "parent (ns2 ! node) = Some 0" "wins (ns2 ! node) = 0"
    unfolding x(2,3) using add_children_new_fields(1,5)[OF root j] by simp_all
  have w0: "wins (ns2 ! 0) = 0"
    unfolding x(2) using add_children_old_fields(4)[OF root root, of ?ms] by (simp add: Node_def)
  have root2: "0 < length ns2" using r(3) by linarith
  have pos: "0 < node" using x(3) by simp
  have path: "path_to_root ns2 node = node # path_to_root ns2 0"
    by (subst path_to_root.simps) (simp add: par(1) pos)
  have tb2: "?tb < length bs2" unfolding x(4) l0(2) by simp
  have m: "mcts g rnd bs k board 1 sd = Some (Inr (0, ?w))"
    using r(4) by (simp add: mcts_def)
  have nin: "node \<in> set (children (ns2 ! 0))"
    unfolding ch2 set_upt using x(3) j by simp
  have f1: "node \<in> set (children (nodes ?w ! 0))"
    using nin root2 by (simp add: bumped_fields)
  have f2: "parent (nodes ?w ! node) = Some 0"
    using par(1) r(3) by (simp add: bumped_fields)
  have f3: "?final = boards ?w ! ?tb" using tb2 by simp
  have f4: "wins (nodes ?w ! node)
      = (if turn g ?final = WHITE then score_of g ?final else - score_of g ?final)"
    using par(2) r(3) by (simp add: bumped_fields path_to_root_self signed_def)
  have f5: "wins (nodes ?w ! 0)
      = (if turn g ?final = WHITE then score_of g ?final else - score_of g ?final)"
    using w0 root2 path by (simp add: bumped_fields path_to_root_self signed_def)
  show ?thesis
    by (rule exI[of _ ?w], rule exI[of _ node], rule exI[of _ ?final])
       (intro conjI m f1 f2 f3 f4 f5)
qed

lemma backpropagate_wins:
  assumes "parents_before ns" "n < length ns"
  shows "\<exists>ns'. backpropagate g b s ns (Some n) = Some ns'
     \<and> (\<forall>i\<in>set (path_to_root ns n).
           wins (ns' ! i) = wins (ns ! i) + (if turn g b = WHITE then s else - s))"
proof -
  have "wins (bumped ns (signed g b s) (path_to_root ns n) ! i)
      = wins (ns ! i) + (if turn g b = WHITE then s else - s)"
    if "i \<in> set (path_to_root ns n)" for i
  proof -
    from path_to_root_le[OF that] assms(2) have "i < length ns" by simp
    then show ?thesis using that by (simp add: bumped_fields signed_def)
  qed
  then show ?thesis using backpropagate_eq[OF assms, of g b s] by simp
qed

text \<open>
  C1. Backpropagation reads \<open>temp_board.turn\<close> on the board the simulation stopped on,
  which does not change while it walks up. So every node of the path, from the starting
  node to the root, receives one and the same amount, the reward or its negation; in
  particular, after the first pass on a board where the game is not over, the node the
  simulation started from and its parent, the root, hold the same \<open>wins\<close>, not amounts of
  opposite sign.
\<close>

theorem first_pass_same_contribution:
  fixes g :: "('b, 'm) game"
  assumes "rules_consistent g" and "board < length bs"
    and "\<not> is_game_over g (bs ! board)"
  shows "(\<exists>w c final. mcts g rnd bs k board 1 sd = Some (Inr (0, w))
           \<and> c \<in> set (children (nodes w ! 0)) \<and> parent (nodes w ! c) = Some 0
           \<and> final = boards w ! length bs
           \<and> wins (nodes w ! c)
               = (if turn g final = WHITE then score_of g final else - score_of g final)
           \<and> wins (nodes w ! 0)
               = (if turn g final = WHITE then score_of g final else - score_of g final))
       \<and> (\<forall>(ns :: 'm nodes) n b s. parents_before ns \<and> n < length ns \<longrightarrow>
            (\<exists>ns'. backpropagate g b s ns (Some n) = Some ns'
               \<and> (\<forall>i\<in>set (path_to_root ns n).
                     wins (ns' ! i) = wins (ns ! i) + (if turn g b = WHITE then s else - s))))"
  using first_pass_wins[OF assms, of rnd k sd] backpropagate_wins[of _ _ g]
  by blast

theorem first_pass_same_contribution_witness:
  "rules_consistent pile_game \<and> (0::nat) < length [(2::nat, True)]
   \<and> \<not> is_game_over pile_game ([(2, True)] ! 0)
   \<and> (\<exists>w c. mcts pile_game (\<lambda>_. 0) [(2, True)] 0 0 1 20 = Some (Inr (0, w))
          \<and> c \<in> set (children (nodes w ! 0)) \<and> parent (nodes w ! c) = Some 0
          \<and> wins (nodes w ! c) = - 1 \<and> wins (nodes w ! 0) = - 1)"
proof -
  have rc: "rules_consistent pile_game" by (rule rules_consistent_pile_game)
  have b: "(0::nat) < length [(2::nat, True)]" by simp
  have o: "\<not> is_game_over pile_game ([(2, True)] ! 0)" by (simp add: pile_game_def)
  from first_pass_same_contribution[OF rc b o, of "\<lambda>_. 0" 0 20]
  obtain w c final where w: "mcts pile_game (\<lambda>_. 0) [(2, True)] 0 0 1 20 = Some (Inr (0, w))"
    "c \<in> set (children (nodes w ! 0))" "parent (nodes w ! c) = Some 0"
    "final = boards w ! length [(2::nat, True)]"
    "wins (nodes w ! c)
       = (if turn pile_game final = WHITE then score_of pile_game final
          else - score_of pile_game final)"
    "wins (nodes w ! 0)
       = (if turn pile_game final = WHITE then score_of pile_game final
          else - score_of pile_game final)"
    by blast
  from w(1) have "boards w = [(2, True), (0, True)]"
    by (auto simp: mcts_pile_game_one_pass)
  with w(4) have "final = (0, True)" by simp
  then have "(if turn pile_game final = WHITE then score_of pile_game final
          else - score_of pile_game final) = - 1"
    by (simp add: pile_game_def score_of_def WHITE_def)
  with w(1,2,3,5,6) rc b o show ?thesis by auto
qed

subsection \<open>The reward of a pass\<close>

lemma iteration_pile_game_first:
  "iteration pile_game (\<lambda>_. 0) 0 20 0
     \<lparr>nodes = [Node None None], boards = [(2, True)], draws = 0\<rparr>
   = Some (Inr \<lparr>nodes =
        [\<lparr>move = None, parent = None, children = [1, 2], wins = - 1, visits = 1\<rparr>,
         \<lparr>move = Some 1, parent = Some 0, children = [], wins = - 1, visits = 1\<rparr>,
         \<lparr>move = Some 2, parent = Some 0, children = [], wins = 0, visits = 0\<rparr>],
        boards = [(2, True), (0, True)], draws = 2\<rparr>)"
  by (simp add: iteration_def board_copy_def Node_def select.simps expand_def
      pile_game_def pile_moves_def random_choice_def board_push_def score_of_def
      backpropagate.simps rollout.simps WHITE_def)

text \<open>
  C7. In a pass of the loop, from the board reached by selection and expansion the
  simulation pushes random choices among the legal moves until the game is over or
  \<open>simulation_depth\<close> moves (20 by default) have been made. The reward is 1 for the
  result 1-0 (White, the side that moves first, has won), -1 for 0-1 and 0 for any other
  result when the game on the board it stopped on is over, and \<open>evaluate_board\<close> of that
  board otherwise. The pass adds this reward, with the sign read off the turn on that
  board, to \<open>wins\<close> of the nodes from the starting node up to the root, and changes nothing
  else but their visits.
\<close>

theorem simulation_reward:
  fixes g :: "('b, 'm) game"
  assumes rc: "rules_consistent g" and t: "tree_ok (nodes w)" and b: "board < length (boards w)"
  shows "(\<exists>leaf bs1 ns2 bs2 k2 node ms final reward w'.
            select g (nodes w) (length (boards w)) (boards w @ [boards w ! board]) 0
              = Some (Inr (leaf, bs1))
          \<and> expand g rnd (length (boards w)) (nodes w) bs1 (draws w) leaf
              = Inr (ns2, bs2, k2, node)
          \<and> playout g rnd k2 (bs2 ! length (boards w)) ms
          \<and> length ms \<le> nat sd
          \<and> final = play g (bs2 ! length (boards w)) ms
          \<and> (is_game_over g final \<or> length ms = nat sd)
          \<and> rollout g rnd (length (boards w)) sd bs2 k2 0
              = Inr (bs2[length (boards w) := final], k2 + length ms)
          \<and> reward = (if is_game_over g final
                       then (if result g final = ''1-0'' then 1
                             else if result g final = ''0-1'' then - 1 else 0)
                       else evaluate_board (placement g final))
          \<and> iteration g rnd board sd 0 w = Some (Inr w')
          \<and> boards w' = bs2[length (boards w) := final]
          \<and> draws w' = k2 + length ms
          \<and> length (nodes w') = length ns2
          \<and> (\<forall>i < length ns2.
                nodes w' ! i
                  = (if i \<in> set (path_to_root ns2 node)
                     then (ns2 ! i)\<lparr>visits := visits (ns2 ! i) + 1,
                                      wins := wins (ns2 ! i)
                                        + (if turn g final = WHITE then reward else - reward)\<rparr>
                     else ns2 ! i)))
       \<and> mcts_default g rnd (boards w) (draws w) board
           = mcts g rnd (boards w) (draws w) board 1000 20"
proof -
  let ?tb = "length (boards w)"
  from iteration_result[OF rc t b, of rnd sd]
  obtain leaf bs1 ns2 bs2 k2 node ms where r:
    "select g (nodes w) ?tb (boards w @ [boards w ! board]) 0 = Some (Inr (leaf, bs1))"
    "length bs1 = Suc ?tb"
    "expand g rnd ?tb (nodes w) bs1 (draws w) leaf = Inr (ns2, bs2, k2, node)"
    "node < length ns2"
    "playout g rnd k2 (bs2 ! ?tb) ms" "length ms \<le> nat sd"
    "is_game_over g (play g (bs2 ! ?tb) ms) \<or> length ms = nat sd"
    "iteration g rnd board sd 0 w
        = Some (Inr \<lparr>nodes = bumped ns2
                               (signed g (play g (bs2 ! ?tb) ms) (score_of g (play g (bs2 ! ?tb) ms)))
                               (path_to_root ns2 node),
                      boards = bs2[?tb := play g (bs2 ! ?tb) ms],
                      draws = k2 + length ms\<rparr>)"
    by blast
  let ?final = "play g (bs2 ! ?tb) ms"
  let ?reward = "if is_game_over g ?final
                 then (if result g ?final = ''1-0'' then 1
                       else if result g ?final = ''0-1'' then - 1 else 0)
                 else evaluate_board (placement g ?final)"
  let ?w' = "\<lparr>nodes = bumped ns2 (signed g ?final (score_of g ?final)) (path_to_root ns2 node),
               boards = bs2[?tb := ?final], draws = k2 + length ms\<rparr> :: ('b, 'm) world"
  from expand_frame[OF r(3)] r(2) have tb2: "?tb < length bs2" by simp
  have ro: "rollout g rnd ?tb sd bs2 k2 0 = Inr (bs2[?tb := ?final], k2 + length ms)"
  proof -
    from r(1,3,8) obtain bs3 k3 where x: "rollout g rnd ?tb sd bs2 k2 0 = Inr (bs3, k3)"
      "bs3 = bs2[?tb := ?final]" "k3 = k2 + length ms"
      unfolding iteration_def board_copy_eq
      by (auto split: option.splits sum.splits prod.splits)
    then show ?thesis by simp
  qed
  have sc: "score_of g ?final = ?reward" by (simp add: score_of_def)
  have nd: "\<forall>i < length ns2.
                nodes ?w' ! i
                  = (if i \<in> set (path_to_root ns2 node)
                     then (ns2 ! i)\<lparr>visits := visits (ns2 ! i) + 1,
                                      wins := wins (ns2 ! i)
                                        + (if turn g ?final = WHITE then ?reward else - ?reward)\<rparr>
                     else ns2 ! i)"
    unfolding sc[symmetric] by (simp add: nth_bumped bump_def signed_def)
  have c1: "\<exists>leaf bs1 ns2 bs2 k2 node ms final reward w'.
            select g (nodes w) (length (boards w)) (boards w @ [boards w ! board]) 0
              = Some (Inr (leaf, bs1))
          \<and> expand g rnd (length (boards w)) (nodes w) bs1 (draws w) leaf
              = Inr (ns2, bs2, k2, node)
          \<and> playout g rnd k2 (bs2 ! length (boards w)) ms
          \<and> length ms \<le> nat sd
          \<and> final = play g (bs2 ! length (boards w)) ms
          \<and> (is_game_over g final \<or> length ms = nat sd)
          \<and> rollout g rnd (length (boards w)) sd bs2 k2 0
              = Inr (bs2[length (boards w) := final], k2 + length ms)
          \<and> reward = (if is_game_over g final
                       then (if result g final = ''1-0'' then 1
                             else if result g final = ''0-1'' then - 1 else 0)
                       else evaluate_board (placement g final))
          \<and> iteration g rnd board sd 0 w = Some (Inr w')
          \<and> boards w' = bs2[length (boards w) := final]
          \<and> draws w' = k2 + length ms
          \<and> length (nodes w') = length ns2
          \<and> (\<forall>i < length ns2.
                nodes w' ! i
                  = (if i \<in> set (path_to_root ns2 node)
                     then (ns2 ! i)\<lparr>visits := visits (ns2 ! i) + 1,
                                      wins := wins (ns2 ! i)
                                        + (if turn g final = WHITE then reward else - reward)\<rparr>
                     else ns2 ! i))"
    apply (rule exI[of _ leaf], rule exI[of _ bs1], rule exI[of _ ns2], rule exI[of _ bs2],
           rule exI[of _ k2], rule exI[of _ node], rule exI[of _ ms], rule exI[of _ ?final],
           rule exI[of _ ?reward], rule exI[of _ ?w'])
    apply (intro conjI r(1) r(3) r(5) r(6) refl r(7) ro r(8) nd)
      apply simp_all
    done
  have c2: "mcts_default g rnd (boards w) (draws w) board
           = mcts g rnd (boards w) (draws w) board 1000 20"
    by (simp add: mcts_default_def)
  show ?thesis using c1 c2 by (rule conjI)
qed

theorem simulation_reward_witness:
  "rules_consistent pile_game
   \<and> tree_ok (nodes \<lparr>nodes = [Node None None :: nat node],
                         boards = [(2::nat, True)], draws = 0\<rparr>)
   \<and> (0::nat) < length (boards \<lparr>nodes = [Node None None :: nat node],
                                  boards = [(2::nat, True)], draws = 0\<rparr>)
   \<and> (\<exists>w' reward. iteration pile_game (\<lambda>_. 0) 0 20 0
                 \<lparr>nodes = [Node None None], boards = [(2, True)], draws = 0\<rparr> = Some (Inr w')
          \<and> boards w' = [(2, True), (0, True)] \<and> draws w' = 2
          \<and> reward = (if is_game_over pile_game (0, True)
                       then (if result pile_game (0, True) = ''1-0'' then 1
                             else if result pile_game (0, True) = ''0-1'' then - 1 else 0)
                       else evaluate_board (placement pile_game (0, True)))
          \<and> reward = - 1
          \<and> wins (nodes w' ! 0) = (if turn pile_game (0, True) = WHITE then reward else - reward))"
proof -
  let ?w0 = "\<lparr>nodes = [Node None None], boards = [(2::nat, True)], draws = 0\<rparr>
              :: (nat \<times> bool, nat) world"
  have rc: "rules_consistent pile_game" by (rule rules_consistent_pile_game)
  have t: "tree_ok (nodes ?w0)" by (simp add: tree_ok_root)
  have b: "(0::nat) < length (boards ?w0)" by simp
  from simulation_reward[OF rc t b, of "\<lambda>_. 0" 20]
  obtain w' where w': "iteration pile_game (\<lambda>_. 0) 0 20 0 ?w0 = Some (Inr w')"
    by blast
  with iteration_pile_game_first have eq: "w' = \<lparr>nodes =
        [\<lparr>move = None, parent = None, children = [1, 2], wins = - 1, visits = 1\<rparr>,
         \<lparr>move = Some 1, parent = Some 0, children = [], wins = - 1, visits = 1\<rparr>,
         \<lparr>move = Some 2, parent = Some 0, children = [], wins = 0, visits = 0\<rparr>],
        boards = [(2, True), (0, True)], draws = 2\<rparr>"
    by simp
  have "boards w' = [(2, True), (0, True)]" "draws w' = 2" "wins (nodes w' ! 0) = - 1"
    unfolding eq by simp_all
  moreover have "(if is_game_over pile_game (0::nat, True)
                       then (if result pile_game (0::nat, True) = ''1-0'' then 1
                             else if result pile_game (0::nat, True) = ''0-1'' then - 1 else 0)
                       else evaluate_board (placement pile_game (0::nat, True))) = (- 1 :: real)"
    by (simp add: pile_game_def)
  moreover have "turn pile_game (0::nat, True) = WHITE" by (simp add: pile_game_def WHITE_def)
  ultimately show ?thesis using rc t b w' by auto
qed

end
